theory Spec2Isabelle
  imports Main "HOL-Library.Word"
begin

section \<open>The Mersenne search of prime11.c\<close>

text \<open>
  The program feeds exponents \<open>p\<close> through a bounded queue to worker threads, each of
  which decides with \<open>lucas_lehmer\<close> whether \<open>2^p - 1\<close> is prime.

  Modelling decisions, valid for the whole development:
  \<^item> \<open>unsigned long\<close> is a 64-bit word (an LP64 platform), so \<open>+\<close> and \<open>*\<close> wrap;
  \<^item> an \<open>mpz_t\<close> variable that has been initialised and not cleared is the integer
    it holds (type \<open>int\<close>);
  \<^item> line 117 clears \<open>t\<close>, and lines 125 and 127 write and read it in every pass of
    the loop that follows: what the loop finds in storage it has given back is a
    parameter \<open>fs\<close> of the pipeline, and a theorem about the Lucas-Lehmer stage holds
    for the behaviours of that storage it names;
  \<^item> the library test \<open>mpz_probab_prime_p\<close> is a parameter \<open>pp\<close> of the pipeline:
    what a theorem needs from it is a hypothesis of that theorem;
  \<^item> the number of bits the library can hold in one integer is a parameter \<open>cap\<close>;
    \<open>lucas_lehmer_at\<close> and \<open>lucas_lehmer\<close> are the pipeline over a library without
    such a limit;
  \<^item> a call that does not return (the library aborts, a division by zero, a loop that
    never exits) is a \<open>fault\<close>, and the value \<open>None\<close> where only returned values are
    looked at;
  \<^item> threads interleave step by step; what the mutex protects is one step.
\<close>

subsection \<open>Machine integers and the arithmetic of the library\<close>

type_synonym ulong = "64 word"

definition ULONG_MAX :: ulong where
  "ULONG_MAX = 18446744073709551615"

text \<open>\<open>mpz_init_set_ui\<close>: the integer value of a machine word.\<close>

definition mpz_of_ui :: "ulong \<Rightarrow> int" where
  "mpz_of_ui x = int (unat x)"

text \<open>
  \<open>mpz_divisible_p n d\<close> and \<open>mpz_divisible_ui_p n d\<close>: whether \<open>n\<close> is a multiple of
  \<open>d\<close>; the library accepts \<open>d = 0\<close>, which divides \<open>0\<close> only.
\<close>

definition mpz_divisible_p :: "int \<Rightarrow> int \<Rightarrow> bool" where
  "mpz_divisible_p n d = (d dvd n)"

definition mpz_divisible_ui_p :: "int \<Rightarrow> ulong \<Rightarrow> bool" where
  "mpz_divisible_ui_p n d = (mpz_of_ui d dvd n)"

text \<open>
  \<open>mpz_tdiv_q_2exp\<close> and \<open>mpz_tdiv_r_2exp\<close>: quotient and remainder of the division
  by \<open>2^b\<close> that rounds towards zero, the remainder taking the sign of the dividend.
\<close>

definition mpz_tdiv_q_2exp :: "int \<Rightarrow> ulong \<Rightarrow> int" where
  "mpz_tdiv_q_2exp n b = sgn n * (\<bar>n\<bar> div 2 ^ unat b)"

definition mpz_tdiv_r_2exp :: "int \<Rightarrow> ulong \<Rightarrow> int" where
  "mpz_tdiv_r_2exp n b = sgn n * (\<bar>n\<bar> mod 2 ^ unat b)"

text \<open>Primality of an integer, by the definition: no divisor strictly between 1 and \<open>n\<close>.\<close>

primrec has_divisor_below :: "nat \<Rightarrow> nat \<Rightarrow> bool" where
  "has_divisor_below n 0 = False"
| "has_divisor_below n (Suc d) = ((2 \<le> d \<and> d dvd n) \<or> has_divisor_below n d)"

definition is_prime :: "int \<Rightarrow> bool" where
  "is_prime n = (2 \<le> n \<and> \<not> has_divisor_below (nat n) (nat n))"

subsection \<open>The primality pipeline\<close>

text \<open>Lines 91 to 93: \<open>mp\<close> is bit \<open>p\<close> set, minus one.\<close>

definition mersenne :: "ulong \<Rightarrow> int" where
  "mersenne p = 2 ^ unat p - 1"

text \<open>Line 107, as written: the product \<open>2 * p\<close> is formed in \<open>unsigned long\<close>.\<close>

definition tlim :: "ulong \<Rightarrow> ulong" where
  "tlim p = (if p div 2 > ULONG_MAX div (2 * p) then ULONG_MAX div (2 * p) else p div 2)"

text \<open>
  Lines 108 to 115. The result is the factor \<open>q\<close> at which line 113 returns 0, or
  \<open>None\<close> when the loop runs to its end.
\<close>

function trial_loop :: "ulong \<Rightarrow> int \<Rightarrow> ulong \<Rightarrow> ulong \<Rightarrow> ulong option" where
  "trial_loop p mp lim k =
     (if k < lim then
        (let q = 2 * p * k + 1 in
         if (q mod 8 = 1 \<or> q mod 8 = 7) \<and> q mod 3 \<noteq> 0 \<and> q mod 5 \<noteq> 0 \<and> q mod 7 \<noteq> 0
            \<and> mpz_divisible_ui_p mp q
         then Some q
         else trial_loop p mp lim (k + 1))
      else None)"
  by pat_completeness auto
termination
proof (relation "measure (\<lambda>(p, mp, lim, k). unat lim - unat k)")
  show "wf (measure (\<lambda>(p, mp, lim, k). unat lim - unat k))" by simp
next
  fix p :: ulong and mp :: int and lim k q :: ulong
  assume lt: "k < lim"
  then have "k \<noteq> - 1"
    by (metis word_order.extremum_strict)
  then have "1 + k \<noteq> 0"
    by (simp add: add_eq_0_iff)
  then have "unat (k + 1) = Suc (unat k)"
    by (simp add: unatSuc add.commute)
  moreover from lt have "unat k < unat lim"
    by (simp add: word_less_nat_alt)
  ultimately show "((p, mp, lim, k + 1), (p, mp, lim, k)) \<in> measure (\<lambda>(p, mp, lim, k). unat lim - unat k)"
    by simp
qed

text \<open>Line 128: subtract \<open>mp\<close> while the value is at least \<open>mp\<close>.\<close>

partial_function (option) reduce_loop :: "int \<Rightarrow> int \<Rightarrow> int option" where
  "reduce_loop V mp = (if V \<ge> mp then reduce_loop (V - mp) mp else Some V)"

text \<open>
  Storage that has been given back. Line 117 clears \<open>t\<close>; the loop of lines 122 to
  129 still writes \<open>t\<close> (line 125) and reads it (line 127) in every pass. What the
  program finds there is not fixed by its text: the allocator may have handed the
  block out again (to \<open>V\<close> at line 121, or to another thread), and the library may
  abort on it. The model takes it from a parameter \<open>fs\<close>: in the pass with counter
  \<open>k\<close>, where \<open>q\<close> and \<open>r\<close> are the quotient and the remainder of the value line 124
  has left in \<open>V\<close>, \<open>fs k q r\<close> is the pair of the values that line 127 finds in \<open>V\<close>
  and in \<open>t\<close>, or \<open>None\<close> when the call does not get that far. Nothing is assumed
  about \<open>fs\<close>. What the write of line 125 does to storage other than that of \<open>V\<close>
  and \<open>t\<close> is outside the model.
\<close>

type_synonym freed_storage = "ulong \<Rightarrow> int \<Rightarrow> int \<Rightarrow> (int \<times> int) option"

text \<open>
  Three behaviours of this storage. With \<open>intact\<close> it keeps what is written to it, as
  if \<open>t\<close> were cleared after the loop. With \<open>reads_as c\<close> line 127 finds the value \<open>c\<close>
  in \<open>t\<close> whatever line 125 has written. With \<open>aborting\<close> the library stops the
  program at the first use.
\<close>

definition intact :: freed_storage where
  "intact k q r = Some (q, r)"

definition reads_as :: "int \<Rightarrow> freed_storage" where
  "reads_as c k q r = Some (q, c)"

definition aborting :: freed_storage where
  "aborting k q r = None"

text \<open>Lines 123 to 128: one pass through the body of the Lucas-Lehmer loop.\<close>

definition ll_body :: "freed_storage \<Rightarrow> ulong \<Rightarrow> int \<Rightarrow> ulong \<Rightarrow> int \<Rightarrow> int option" where
  "ll_body fs p mp k V =
     (let V1 = V * V;
          V2 = V1 - 2;
          r = mpz_tdiv_r_2exp V2 p;
          q = mpz_tdiv_q_2exp V2 p
      in case fs k q r of
           None \<Rightarrow> None
         | Some (V3, t) \<Rightarrow> reduce_loop (V3 + t) mp)"

text \<open>Lines 122 to 129: \<open>for (k = 3; k <= p; k++)\<close>, with \<open>k\<close> an \<open>unsigned long\<close>.\<close>

partial_function (option) ll_loop ::
  "freed_storage \<Rightarrow> ulong \<Rightarrow> int \<Rightarrow> ulong \<Rightarrow> int \<Rightarrow> int option" where
  "ll_loop fs p mp k V =
     (if k \<le> p then Option.bind (ll_body fs p mp k V) (\<lambda>V'. ll_loop fs p mp (k + 1) V')
      else Some V)"

text \<open>The return statement a call leaves through.\<close>

datatype ret_site =
    Ret_base        \<comment> \<open>line 82\<close>
  | Ret_exponent    \<comment> \<open>line 88\<close>
  | Ret_special     \<comment> \<open>line 102\<close>
  | Ret_trial       \<comment> \<open>line 113\<close>
  | Ret_lucas       \<comment> \<open>line 133\<close>

text \<open>The ways in which a call does not return.\<close>

datatype fault =
    Abort_setbit    \<comment> \<open>line 92: the library cannot hold \<open>2^p\<close> and aborts\<close>
  | Div_by_zero     \<comment> \<open>line 107: \<open>2 * p\<close> is 0\<close>
  | No_return       \<comment> \<open>lines 122 to 129: a loop never exits, or a use of \<open>t\<close> aborts\<close>

text \<open>
  Line 92, \<open>mpz_setbit (mp, p)\<close>, needs an integer of \<open>p + 1\<close> bits. The library aborts
  when it cannot provide one. \<open>cap = Some n\<close>: only the bits below index \<open>n\<close> can be
  set; \<open>cap = None\<close>: every bit can.
\<close>

definition within_capacity :: "nat option \<Rightarrow> ulong \<Rightarrow> bool" where
  "within_capacity cap p = (case cap of None \<Rightarrow> True | Some n \<Rightarrow> unat p < n)"

text \<open>
  \<open>lucas_lehmer\<close>, lines 77 to 134, with the return statement taken next to the
  returned value. Line 107 divides by \<open>2 * p\<close>.
\<close>

definition lucas_lehmer_run ::
  "nat option \<Rightarrow> freed_storage \<Rightarrow> (int \<Rightarrow> bool) \<Rightarrow> ulong \<Rightarrow> fault + ret_site \<times> int" where
  "lucas_lehmer_run cap fs pp p =
     (if p = 2 then Inr (Ret_base, 1)
      else
        let t = mpz_of_ui p in
        if \<not> pp t then Inr (Ret_exponent, 0)
        else if \<not> within_capacity cap p then Inl Abort_setbit
        else
          let mp = mersenne p in
          if p > 3 \<and> p mod 4 = 3 \<and> pp (t * 2 + 1) \<and> mpz_divisible_p mp (t * 2 + 1)
          then Inr (Ret_special, 0)
          else if 2 * p = 0 then Inl Div_by_zero
          else
            (case trial_loop p mp (tlim p) 1 of
               Some q \<Rightarrow> Inr (Ret_trial, 0)
             | None \<Rightarrow>
                 (case ll_loop fs p mp 3 4 of
                    None \<Rightarrow> Inl No_return
                  | Some V \<Rightarrow> Inr (Ret_lucas, if V = 0 then 1 else 0))))"


text \<open>
  The pipeline over a library that holds integers of any size: the return statement
  and the returned value, \<open>None\<close> when the call does not return; and the returned value
  alone.
\<close>

definition lucas_lehmer_at ::
  "freed_storage \<Rightarrow> (int \<Rightarrow> bool) \<Rightarrow> ulong \<Rightarrow> (ret_site \<times> int) option" where
  "lucas_lehmer_at fs pp p =
     (case lucas_lehmer_run None fs pp p of Inl f \<Rightarrow> None | Inr res \<Rightarrow> Some res)"

definition lucas_lehmer :: "freed_storage \<Rightarrow> (int \<Rightarrow> bool) \<Rightarrow> ulong \<Rightarrow> int option" where
  "lucas_lehmer fs pp p = map_option snd (lucas_lehmer_at fs pp p)"

subsection \<open>Closed forms, for reasoning and for evaluation on numerals\<close>

text \<open>
  What one pass of the Lucas-Lehmer loop computes when the storage of \<open>t\<close> is
  \<open>intact\<close>, as a function: the square minus 2, kept as it is when negative and reduced
  modulo \<open>mp\<close> otherwise (lemma \<open>ll_body_closed\<close> below).
\<close>

definition ll_next :: "int \<Rightarrow> int \<Rightarrow> int" where
  "ll_next mp V = (let W = V * V - 2 in if W < 0 then W else W mod mp)"

primrec ll_eval :: "int \<Rightarrow> nat \<Rightarrow> int \<Rightarrow> int" where
  "ll_eval mp 0 V = V"
| "ll_eval mp (Suc i) V = ll_eval mp i (ll_next mp V)"

text \<open>
  The same pass with the split into quotient and remainder by \<open>pw = mp + 1\<close> and one
  subtraction, which evaluates faster on long numerals.
\<close>

definition ll_fast :: "int \<Rightarrow> int \<Rightarrow> int \<Rightarrow> int" where
  "ll_fast pw mp V =
     (let W = V * V - 2 in
      if W < 0 then W
      else let S = W div pw + W mod pw in if S < mp then S else S - mp)"

primrec ll_fast_eval :: "int \<Rightarrow> int \<Rightarrow> nat \<Rightarrow> int \<Rightarrow> int" where
  "ll_fast_eval pw mp 0 V = V"
| "ll_fast_eval pw mp (Suc i) V = ll_fast_eval pw mp i (ll_fast pw mp V)"

text \<open>
  The reference recurrence of the specification: \<open>V_1 = 4\<close>,
  \<open>V_{k+1} = (V_k^2 - 2) mod M_p\<close>, the residue taken between 0 and \<open>M_p - 1\<close>.
\<close>

primrec ll_reference :: "int \<Rightarrow> nat \<Rightarrow> int" where
  "ll_reference mp 0 = 4"
| "ll_reference mp (Suc k) = (ll_reference mp k * ll_reference mp k - 2) mod mp"

text \<open>The trial-division loop on integers, counting the passes that remain.\<close>

primrec trial_eval :: "int \<Rightarrow> int \<Rightarrow> nat \<Rightarrow> int \<Rightarrow> int option" where
  "trial_eval p mp 0 k = None"
| "trial_eval p mp (Suc n) k =
     (let q = (2 * p * k + 1) mod 18446744073709551616 in
      if (q mod 8 = 1 \<or> q mod 8 = 7) \<and> q mod 3 \<noteq> 0 \<and> q mod 5 \<noteq> 0 \<and> q mod 7 \<noteq> 0
         \<and> q dvd mp
      then Some q
      else trial_eval p mp n (k + 1))"

text \<open>Line 107 on integers, for exponents below \<open>2^63\<close> (where \<open>2 * p\<close> does not wrap).\<close>

definition tlim_eval :: "int \<Rightarrow> int" where
  "tlim_eval n =
     (let a = n div 2; b = 18446744073709551615 div (2 * n) in if a > b then b else a)"

text \<open>
  The whole of \<open>lucas_lehmer\<close> on integers, with the storage of \<open>t\<close> \<open>intact\<close>, given
  the two answers \<open>b1\<close> and \<open>b2\<close> of the library test (for \<open>p\<close> and for \<open>2p + 1\<close>);
  lemma \<open>lucas_lehmer_at_eval\<close> below relates it to \<open>lucas_lehmer_at intact\<close>.
\<close>

definition pipeline_eval :: "bool \<Rightarrow> bool \<Rightarrow> int \<Rightarrow> (ret_site \<times> int) option" where
  "pipeline_eval b1 b2 n =
     (if n = 2 then Some (Ret_base, 1)
      else if \<not> b1 then Some (Ret_exponent, 0)
      else
        let mp = 2 ^ nat n - 1 in
        if 3 < n \<and> n mod 4 = 3 \<and> b2 \<and> (n * 2 + 1) dvd mp then Some (Ret_special, 0)
        else
          (case trial_eval n mp (nat (tlim_eval n) - 1) 1 of
             Some q \<Rightarrow> Some (Ret_trial, 0)
           | None \<Rightarrow>
               Some (Ret_lucas, if ll_fast_eval (mp + 1) mp (nat n - 2) 4 = 0 then 1 else 0)))"

text \<open>The exponents the specification lists.\<close>

definition mersenne_exponents :: "ulong list" where
  "mersenne_exponents = [2, 3, 5, 7, 13, 17, 19, 31, 61, 89, 107, 127]"

definition composite_exponents :: "ulong list" where
  "composite_exponents = [11, 23, 29, 37, 41, 43, 47, 53]"

text \<open>
  A library test that accepts the number \<open>a\<close> and nothing else. Run with it on the
  exponent \<open>a\<close>, the pipeline passes the exponent filter and cannot leave through the
  special filter, since \<open>2a + 1\<close> is rejected.
\<close>

definition accepts_only :: "int \<Rightarrow> int \<Rightarrow> bool" where
  "accepts_only a n = (n = a)"

section \<open>The bounded task queue\<close>

text \<open>
  The queue is a ring buffer guarded by two counting semaphores and a mutex. The
  \<open>int\<close> fields of the C structure are integers here; under the invariant proved below
  they stay between \<open>0\<close> and \<open>max_tasks\<close>, where C's \<open>int\<close> does not overflow. The
  mutex makes lines 58 to 60 and lines 68 to 70 atomic with respect to each other, so
  each of these critical sections is one step of the model; waiting on a semaphore and
  posting to it are steps of their own.
\<close>

datatype ThreadData = ThreadData (data_p: ulong)

record TaskQueue =
  tasks :: "ThreadData list"
  max_tasks :: int
  head :: int
  tail :: int
  count :: int
  sem_empty :: nat
  sem_full :: nat

text \<open>C's \<open>%\<close> on \<open>int\<close>: the remainder of the division that rounds towards zero.\<close>

definition c_rem :: "int \<Rightarrow> int \<Rightarrow> int" where
  "c_rem a b = sgn a * (\<bar>a\<bar> mod \<bar>b\<bar>)"

text \<open>
  \<open>sem_wait\<close> on a semaphore of value \<open>s\<close>: \<open>None\<close> while the caller has to wait.
  \<open>sem_post\<close> adds one.
\<close>

definition sem_wait :: "nat \<Rightarrow> nat option" where
  "sem_wait s = (if s = 0 then None else Some (s - 1))"

definition sem_post :: "nat \<Rightarrow> nat" where
  "sem_post s = s + 1"

text \<open>
  \<open>init_queue\<close>, lines 44 to 53. \<open>mem\<close> is the block that \<open>malloc\<close> returns: its
  contents are indeterminate, so it is a parameter (the theorems below take it to have
  \<open>max_tasks\<close> cells: the source does not check the result of \<open>malloc\<close>). \<open>sem_init\<close>
  takes its initial value as an \<open>unsigned int\<close>.
\<close>

definition init_queue :: "ThreadData list \<Rightarrow> int \<Rightarrow> TaskQueue" where
  "init_queue mem n =
     \<lparr> tasks = mem, max_tasks = n, head = 0, tail = 0, count = 0,
       sem_empty = nat (n mod 4294967296), sem_full = 0 \<rparr>"

text \<open>Lines 58 to 60, under the mutex.\<close>

definition enqueue_locked :: "TaskQueue \<Rightarrow> ThreadData \<Rightarrow> TaskQueue" where
  "enqueue_locked q d =
     q \<lparr> tasks := (tasks q)[nat (tail q) := d],
         tail := c_rem (tail q + 1) (max_tasks q),
         count := count q + 1 \<rparr>"

text \<open>Lines 68 to 70, under the mutex: the value read and the queue left behind.\<close>

definition dequeue_locked :: "TaskQueue \<Rightarrow> ThreadData \<times> TaskQueue" where
  "dequeue_locked q =
     (tasks q ! nat (head q),
      q \<lparr> head := c_rem (head q + 1) (max_tasks q), count := count q - 1 \<rparr>)"

text \<open>
  \<open>enqueue\<close> and \<open>dequeue\<close> run from entry to return with no other thread in between;
  \<open>None\<close> when the call has to wait at its first line.
\<close>

definition enqueue :: "TaskQueue \<Rightarrow> ThreadData \<Rightarrow> TaskQueue option" where
  "enqueue q d =
     (case sem_wait (sem_empty q) of
        None \<Rightarrow> None
      | Some e \<Rightarrow>
          let q' = enqueue_locked (q \<lparr> sem_empty := e \<rparr>) d
          in Some (q' \<lparr> sem_full := sem_post (sem_full q') \<rparr>))"

definition dequeue :: "TaskQueue \<Rightarrow> (ThreadData \<times> TaskQueue) option" where
  "dequeue q =
     (case sem_wait (sem_full q) of
        None \<Rightarrow> None
      | Some f \<Rightarrow>
          let (d, q') = dequeue_locked (q \<lparr> sem_full := f \<rparr>)
          in Some (d, q' \<lparr> sem_empty := sem_post (sem_empty q') \<rparr>))"

subsection \<open>Threads\<close>

text \<open>Where a thread stands: outside the queue, or before a line of one of the two calls.\<close>

datatype pc =
    Idle
  | Enq_wait ThreadData    \<comment> \<open>before line 56, holding the argument\<close>
  | Enq_crit ThreadData    \<comment> \<open>before lines 57 to 61\<close>
  | Enq_post               \<comment> \<open>before line 62\<close>
  | Deq_wait               \<comment> \<open>before line 66\<close>
  | Deq_crit               \<comment> \<open>before lines 67 to 71\<close>
  | Deq_post ThreadData    \<comment> \<open>before line 72, holding the value read\<close>

text \<open>
  The queue, the threads, and the history of the buffer: the values written by line 58
  and the values read by line 68, each in the order in which it happened.
\<close>

record system =
  queue :: TaskQueue
  threads :: "pc list"
  enqueued :: "ThreadData list"
  dequeued :: "ThreadData list"

datatype event =
    Call_enqueue nat ThreadData   \<comment> \<open>thread \<open>i\<close> calls \<open>enqueue\<close>\<close>
  | Call_dequeue nat              \<comment> \<open>thread \<open>i\<close> calls \<open>dequeue\<close>\<close>
  | Step nat                      \<comment> \<open>the scheduler runs thread \<open>i\<close> for one step\<close>

definition init_system :: "ThreadData list \<Rightarrow> int \<Rightarrow> nat \<Rightarrow> system" where
  "init_system mem n k =
     \<lparr> queue = init_queue mem n, threads = replicate k Idle, enqueued = [], dequeued = [] \<rparr>"

text \<open>One step of one thread. A thread that waits on a semaphore of value 0 stays put.\<close>

definition thread_step :: "nat \<Rightarrow> system \<Rightarrow> system" where
  "thread_step i s =
     (let q = queue s; ts = threads s in
      case ts ! i of
        Idle \<Rightarrow> s
      | Enq_wait d \<Rightarrow>
          (case sem_wait (sem_empty q) of
             None \<Rightarrow> s
           | Some e \<Rightarrow> s \<lparr> queue := q \<lparr> sem_empty := e \<rparr>, threads := ts[i := Enq_crit d] \<rparr>)
      | Enq_crit d \<Rightarrow>
          s \<lparr> queue := enqueue_locked q d, threads := ts[i := Enq_post],
              enqueued := enqueued s @ [d] \<rparr>
      | Enq_post \<Rightarrow>
          s \<lparr> queue := q \<lparr> sem_full := sem_post (sem_full q) \<rparr>, threads := ts[i := Idle] \<rparr>
      | Deq_wait \<Rightarrow>
          (case sem_wait (sem_full q) of
             None \<Rightarrow> s
           | Some f \<Rightarrow> s \<lparr> queue := q \<lparr> sem_full := f \<rparr>, threads := ts[i := Deq_crit] \<rparr>)
      | Deq_crit \<Rightarrow>
          (let (d, q') = dequeue_locked q in
           s \<lparr> queue := q', threads := ts[i := Deq_post d], dequeued := dequeued s @ [d] \<rparr>)
      | Deq_post d \<Rightarrow>
          s \<lparr> queue := q \<lparr> sem_empty := sem_post (sem_empty q) \<rparr>, threads := ts[i := Idle] \<rparr>)"

definition step :: "event \<Rightarrow> system \<Rightarrow> system" where
  "step e s =
     (case e of
        Call_enqueue i d \<Rightarrow>
          if i < length (threads s) \<and> threads s ! i = Idle
          then s \<lparr> threads := (threads s)[i := Enq_wait d] \<rparr> else s
      | Call_dequeue i \<Rightarrow>
          if i < length (threads s) \<and> threads s ! i = Idle
          then s \<lparr> threads := (threads s)[i := Deq_wait] \<rparr> else s
      | Step i \<Rightarrow> if i < length (threads s) then thread_step i s else s)"

text \<open>A schedule is a list of events, run from left to right.\<close>

definition run :: "event list \<Rightarrow> system \<Rightarrow> system" where
  "run es s = foldl (\<lambda>s e. step e s) s es"

text \<open>The slots in use, from \<open>head\<close> on, and the values they hold.\<close>

definition slots :: "TaskQueue \<Rightarrow> nat list" where
  "slots q = map (\<lambda>j. nat ((head q + int j) mod max_tasks q)) [0..<nat (count q)]"

definition contents :: "TaskQueue \<Rightarrow> ThreadData list" where
  "contents q = map (\<lambda>i. tasks q ! i) (slots q)"

definition occupied :: "TaskQueue \<Rightarrow> nat \<Rightarrow> bool" where
  "occupied q i = (i \<in> set (slots q))"

text \<open>
  A thread between its \<open>sem_wait\<close> and its \<open>sem_post\<close> holds one unit of a semaphore:
  a unit of \<open>sem_empty\<close> that has not yet become an occupied slot or gone back to
  \<open>sem_empty\<close>, or a unit of \<open>sem_full\<close> likewise.
\<close>

definition holds_empty :: "pc \<Rightarrow> int" where
  "holds_empty c = (case c of Enq_crit d \<Rightarrow> 1 | Deq_post d \<Rightarrow> 1 | _ \<Rightarrow> 0)"

definition holds_full :: "pc \<Rightarrow> int" where
  "holds_full c = (case c of Enq_post \<Rightarrow> 1 | Deq_crit \<Rightarrow> 1 | _ \<Rightarrow> 0)"

text \<open>The invariant of the queue of capacity \<open>C\<close>.\<close>

definition queue_inv :: "int \<Rightarrow> system \<Rightarrow> bool" where
  "queue_inv C s =
     (let q = queue s; ts = threads s in
      max_tasks q = C \<and> length (tasks q) = nat C
      \<and> 0 \<le> head q \<and> head q < C \<and> 0 \<le> count q \<and> count q \<le> C
      \<and> tail q = (head q + count q) mod C
      \<and> int (sem_empty q) + sum_list (map holds_empty ts) + count q = C
      \<and> int (sem_full q) + sum_list (map holds_full ts) = count q
      \<and> enqueued s = dequeued s @ contents q)"

subsection \<open>Example schedules\<close>

text \<open>
  Schedules for two threads, used to run the model on concrete inputs: a queue of two
  cells through which 5 and 7 are enqueued and 5 is dequeued, and a queue of one cell
  with a writer admitted, a reader admitted, a writer arriving at the full queue and a
  reader arriving at the empty queue.
\<close>

definition demo_schedule :: "event list" where
  "demo_schedule =
     [Call_enqueue 0 (ThreadData 5), Step 0, Step 0, Step 0,
      Call_enqueue 0 (ThreadData 7), Step 0, Step 0, Step 0,
      Call_dequeue 1, Step 1, Step 1, Step 1]"

definition demo_memory :: "ThreadData list" where
  "demo_memory = [ThreadData 0, ThreadData 0]"

definition one_cell :: "ThreadData list" where
  "one_cell = [ThreadData 0]"

definition writer_admitted :: "event list" where
  "writer_admitted = [Call_enqueue 0 (ThreadData 5), Step 0]"

definition reader_admitted :: "event list" where
  "reader_admitted =
     [Call_enqueue 0 (ThreadData 5), Step 0, Step 0, Step 0, Call_dequeue 1, Step 1]"

definition writer_at_full :: "event list" where
  "writer_at_full =
     [Call_enqueue 0 (ThreadData 5), Step 0, Step 0, Step 0, Call_enqueue 0 (ThreadData 7)]"

definition reader_at_empty :: "event list" where
  "reader_at_empty = [Call_dequeue 1]"

section \<open>The entry point\<close>

text \<open>
  Line 152 reads the starting exponent with the C library's \<open>strtoul (argv[1], 0, 10)\<close>,
  modelled here as the C standard describes it for base 10: white space is skipped, one
  sign is accepted, the longest run of decimal digits is converted; with no digit at
  all the result is 0; a value beyond \<open>ULONG_MAX\<close> gives \<open>ULONG_MAX\<close>; a minus sign
  negates the value in \<open>unsigned long\<close>.
\<close>

definition isspace :: "char \<Rightarrow> bool" where
  "isspace c = (of_char c \<in> {32, 9, 10, 11, 12, 13 :: nat})"

definition isdigit :: "char \<Rightarrow> bool" where
  "isdigit c = (48 \<le> (of_char c :: nat) \<and> (of_char c :: nat) \<le> 57)"

definition digit_value :: "char \<Rightarrow> nat" where
  "digit_value c = of_char c - 48"

text \<open>The argument without its leading white space: the sign found, and what follows it.\<close>

definition sign_and_rest :: "string \<Rightarrow> bool \<times> string" where
  "sign_and_rest s =
     (case dropWhile isspace s of
        [] \<Rightarrow> (False, [])
      | c # r \<Rightarrow>
          if c = CHR ''-'' then (True, r)
          else if c = CHR ''+'' then (False, r)
          else (False, c # r))"

definition leading_digits :: "string \<Rightarrow> string" where
  "leading_digits s = takeWhile isdigit (snd (sign_and_rest s))"

definition decimal_value :: "string \<Rightarrow> nat" where
  "decimal_value ds = foldl (\<lambda>a c. 10 * a + digit_value c) 0 ds"

definition strtoul :: "string \<Rightarrow> ulong" where
  "strtoul s =
     (let ds = leading_digits s; v = decimal_value ds in
      if ds = [] then 0
      else if v > 18446744073709551615 then ULONG_MAX
      else if fst (sign_and_rest s) then - of_nat v
      else of_nat v)"

text \<open>Line 152: \<open>argv\<close> is the argument vector, \<open>argc\<close> its length.\<close>

definition main_start :: "string list \<Rightarrow> ulong" where
  "main_start argv = (if length argv \<ge> 2 then strtoul (argv ! 1) else 1)"

section \<open>Properties of the primality pipeline\<close>

declare trial_loop.simps [simp del]

lemma reduce_loop_below: "V < mp \<Longrightarrow> reduce_loop V mp = Some V"
  by (subst reduce_loop.simps) simp

lemma reduce_loop_mod:
  assumes "0 < mp" and "mp \<le> V"
  shows "reduce_loop V mp = Some (V mod mp)"
  using assms(2)
proof (induction "nat V" arbitrary: V rule: less_induct)
  case less
  have step: "reduce_loop V mp = reduce_loop (V - mp) mp"
    using less.prems by (subst reduce_loop.simps) simp
  have shift: "(V - mp) mod mp = V mod mp"
    by (metis mod_diff_right_eq mod_self diff_zero)
  show ?case
  proof (cases "V - mp < mp")
    case True
    then have "reduce_loop (V - mp) mp = Some (V - mp)"
      by (rule reduce_loop_below)
    moreover have "(V - mp) mod mp = V - mp"
      using True less.prems by (intro mod_pos_pos_trivial) simp_all
    ultimately show ?thesis using step shift by (simp only:)
  next
    case False
    then have ge: "mp \<le> V - mp" by simp
    have "nat (V - mp) < nat V" using assms(1) less.prems by linarith
    then have "reduce_loop (V - mp) mp = Some ((V - mp) mod mp)"
      using less.hyps ge by blast
    then show ?thesis using step shift by (simp only:)
  qed
qed

lemma reduce_loop_nonneg:
  assumes "0 < mp" and "0 \<le> V"
  shows "reduce_loop V mp = Some (V mod mp)"
proof (cases "V < mp")
  case True
  then show ?thesis using assms by (simp add: reduce_loop_below)
next
  case False
  then show ?thesis using assms by (simp add: reduce_loop_mod)
qed

lemma split_sum_mod:
  fixes W pw :: int
  shows "(W div pw + W mod pw) mod (pw - 1) = W mod (pw - 1)"
proof -
  have "W = (pw - 1) * (W div pw) + (W div pw + W mod pw)"
    by (simp add: algebra_simps)
  then have "W mod (pw - 1) = ((pw - 1) * (W div pw) + (W div pw + W mod pw)) mod (pw - 1)"
    by simp
  then show ?thesis by simp
qed

lemma ll_body_closed:
  assumes "2 \<le> unat p"
  shows "ll_body intact p (mersenne p) k V = Some (ll_next (mersenne p) V)"
proof -
  let ?pw = "(2::int) ^ unat p"
  let ?W = "V * V - 2"
  have pw4: "4 \<le> ?pw"
    using power_increasing [OF assms, of "2::int"] by simp
  then have mp_pos: "0 < mersenne p" by (simp add: mersenne_def)
  show ?thesis
  proof (cases "?W < 0")
    case True
    have "0 \<le> V * V" by simp
    with True have abs_le: "\<bar>?W\<bar> \<le> 2" and neg: "sgn ?W = - 1" by auto
    then have small: "\<bar>?W\<bar> < ?pw" using pw4 by linarith
    have "mpz_tdiv_q_2exp ?W p + mpz_tdiv_r_2exp ?W p = ?W"
      using small neg True by (simp add: mpz_tdiv_q_2exp_def mpz_tdiv_r_2exp_def)
    moreover have "?W < mersenne p" using True mp_pos by linarith
    ultimately show ?thesis
      using True by (simp add: ll_body_def intact_def ll_next_def Let_def reduce_loop_below)
  next
    case False
    then have nonneg: "0 \<le> ?W" by simp
    then have sg: "sgn ?W * (\<bar>?W\<bar> div ?pw) + sgn ?W * (\<bar>?W\<bar> mod ?pw) = ?W div ?pw + ?W mod ?pw"
      by (cases "?W = 0") (simp_all add: sgn_if)
    have "0 \<le> ?W div ?pw + ?W mod ?pw"
      using nonneg by (simp add: pos_imp_zdiv_nonneg_iff)
    then have "reduce_loop (?W div ?pw + ?W mod ?pw) (mersenne p)
        = Some ((?W div ?pw + ?W mod ?pw) mod (mersenne p))"
      using mp_pos by (rule reduce_loop_nonneg [rotated])
    also have "(?W div ?pw + ?W mod ?pw) mod (mersenne p) = ?W mod (mersenne p)"
      unfolding mersenne_def by (rule split_sum_mod)
    finally show ?thesis
      using False sg
      by (simp add: ll_body_def intact_def ll_next_def Let_def mpz_tdiv_q_2exp_def
          mpz_tdiv_r_2exp_def)
  qed
qed

lemma unat_incr_le: "k \<le> p \<Longrightarrow> p \<noteq> - 1 \<Longrightarrow> unat (k + 1) = Suc (unat k)"
  for k :: "'a::len word"
proof -
  assume "k \<le> p" "p \<noteq> - 1"
  then have "k \<noteq> - 1"
    by (metis word_order.extremum_uniqueI)
  then have "1 + k \<noteq> 0"
    by (simp add: add_eq_0_iff)
  then show ?thesis
    by (simp add: unatSuc add.commute)
qed

lemma ll_eval_next: "ll_eval mp (Suc i) V = ll_next mp (ll_eval mp i V)"
  by (induction i arbitrary: V) simp_all

lemma ll_loop_eval:
  assumes "2 \<le> unat p" and "p \<noteq> - 1"
  shows "ll_loop intact p (mersenne p) k V
    = Some (ll_eval (mersenne p) (Suc (unat p) - unat k) V)"
proof (induction "Suc (unat p) - unat k" arbitrary: k V)
  case 0
  then have "\<not> k \<le> p" by (simp add: word_le_nat_alt)
  then show ?case using 0 by (subst ll_loop.simps) simp
next
  case (Suc n)
  then have le: "k \<le> p" by (simp add: word_le_nat_alt)
  have inc: "unat (k + 1) = Suc (unat k)"
    using le assms(2) by (rule unat_incr_le)
  have "n = Suc (unat p) - unat (k + 1)" using Suc.hyps(2) inc by simp
  then have "ll_loop intact p (mersenne p) (k + 1) (ll_next (mersenne p) V)
      = Some (ll_eval (mersenne p) n (ll_next (mersenne p) V))"
    using Suc.hyps(1) by blast
  moreover have "ll_loop intact p (mersenne p) k V
      = ll_loop intact p (mersenne p) (k + 1) (ll_next (mersenne p) V)"
    using le assms(1) by (subst ll_loop.simps) (simp add: ll_body_closed)
  ultimately show ?case
    using Suc.hyps(2) [symmetric] by simp
qed

lemma word_mod_eq_iff:
  fixes q :: ulong
  shows "(q mod 8 = 1) = (uint q mod 8 = 1)" "(q mod 8 = 7) = (uint q mod 8 = 7)"
    "(q mod 3 = 0) = (uint q mod 3 = 0)" "(q mod 5 = 0) = (uint q mod 5 = 0)"
    "(q mod 7 = 0) = (uint q mod 7 = 0)"
  by (simp_all add: word_uint_eq_iff uint_mod)

lemma uint_candidate:
  fixes p k :: ulong
  shows "uint (2 * p * k + 1) = (2 * uint p * uint k + 1) mod 18446744073709551616"
  by (simp add: uint_word_ariths mod_simps)

lemma trial_loop_eval:
  "trial_loop p mp lim k = map_option word_of_int (trial_eval (uint p) mp (unat lim - unat k) (uint k))"
proof (induction "unat lim - unat k" arbitrary: k)
  case 0
  then have "\<not> k < lim" by (simp add: word_less_nat_alt)
  then show ?case using 0 by (subst trial_loop.simps) simp
next
  case (Suc n)
  then have lt: "k < lim" by (simp add: word_less_nat_alt)
  then have "k \<le> lim" "k \<noteq> - 1"
    by (simp_all add: less_imp_le) (metis word_order.extremum_strict)
  then have "1 + k \<noteq> 0" by (simp add: add_eq_0_iff)
  then have inc: "unat (k + 1) = Suc (unat k)"
    by (simp add: unatSuc add.commute)
  then have inc': "uint (k + 1) = uint k + 1"
    by (metis of_nat_Suc of_nat_unat add.commute)
  have "n = unat lim - unat (k + 1)" using Suc.hyps(2) inc by simp
  then have IH: "trial_loop p mp lim (k + 1)
      = map_option word_of_int (trial_eval (uint p) mp n (uint (k + 1)))"
    using Suc.hyps(1) by blast
  show ?case
    using lt IH Suc.hyps(2) [symmetric]
    by (subst trial_loop.simps)
      (simp add: Let_def word_mod_eq_iff uint_candidate [symmetric] mpz_divisible_ui_p_def
        mpz_of_ui_def inc')
qed

lemma ll_next_range:
  assumes "2 \<le> mp"
  shows "- 2 \<le> ll_next mp V \<and> ll_next mp V < mp"
proof (cases "V * V - 2 < 0")
  case True
  have "0 \<le> V * V" by simp
  with True assms show ?thesis by (simp add: ll_next_def Let_def)
next
  case False
  have "0 \<le> (V * V - 2) mod mp" "(V * V - 2) mod mp < mp"
    using assms by simp_all
  with False show ?thesis by (simp add: ll_next_def Let_def)
qed

lemma ll_next_fast:
  assumes mp: "2 \<le> mp" and V: "\<bar>V\<bar> \<le> mp"
  shows "ll_next mp V = ll_fast (mp + 1) mp V"
proof (cases "V * V - 2 < 0")
  case True
  then show ?thesis by (simp add: ll_next_def ll_fast_def Let_def)
next
  case False
  let ?W = "V * V - 2" and ?pw = "mp + 1"
  let ?S = "?W div ?pw + ?W mod ?pw"
  from False have W0: "0 \<le> ?W" by simp
  have "V * V = \<bar>V\<bar> * \<bar>V\<bar>" by simp
  also have "\<dots> \<le> mp * mp" using V by (intro mult_mono) simp_all
  finally have "?W < mp * ?pw" using mp by (simp add: algebra_simps)
  note Wlt = this
  have q: "?W div ?pw < mp"
  proof (rule ccontr)
    assume "\<not> ?W div ?pw < mp"
    then have "?pw * mp \<le> ?pw * (?W div ?pw)"
      using mp by (intro mult_left_mono) simp_all
    also have "\<dots> = ?W - ?W mod ?pw"
      by (simp only: minus_mod_eq_mult_div)
    also have "\<dots> \<le> ?W"
      using mp by simp
    finally show False using \<open>?W < mp * ?pw\<close> by (simp add: mult.commute)
  qed
  have pw0: "0 < ?pw" using mp by simp
  have r: "?W mod ?pw < ?pw" "0 \<le> ?W mod ?pw"
    using pw0 by (rule pos_mod_bound, rule pos_mod_sign)
  have q0: "0 \<le> ?W div ?pw" using W0 mp by (simp add: pos_imp_zdiv_nonneg_iff)
  have S: "0 \<le> ?S" "?S < 2 * mp" using q r q0 by linarith+
  have "?W mod mp = ?S mod mp"
    using split_sum_mod [of ?W ?pw] by simp
  also have "\<dots> = (if ?S < mp then ?S else ?S - mp)"
  proof (cases "?S < mp")
    case True
    then show ?thesis using S by simp
  next
    case False
    then have "(?S - mp) mod mp = ?S - mp"
      using S by (intro mod_pos_pos_trivial) simp_all
    moreover have "(?S - mp) mod mp = ?S mod mp"
      by (metis mod_diff_right_eq mod_self diff_zero)
    ultimately show ?thesis using False by (simp only: if_False)
  qed
  finally show ?thesis
    using False by (simp add: ll_next_def ll_fast_def Let_def)
qed

lemma ll_eval_range:
  assumes "2 \<le> mp" and "\<bar>V\<bar> \<le> mp"
  shows "\<bar>ll_eval mp i V\<bar> \<le> mp"
proof (induction i)
  case 0
  then show ?case using assms by simp
next
  case (Suc i)
  have "- 2 \<le> ll_next mp (ll_eval mp i V) \<and> ll_next mp (ll_eval mp i V) < mp"
    using assms(1) by (rule ll_next_range)
  then show ?case using assms(1) unfolding ll_eval_next by linarith
qed

lemma ll_fast_eval_next: "ll_fast_eval pw mp (Suc i) V = ll_fast pw mp (ll_fast_eval pw mp i V)"
  by (induction i arbitrary: V) simp_all

lemma ll_eval_fast:
  assumes "2 \<le> mp" and "\<bar>V\<bar> \<le> mp"
  shows "ll_eval mp i V = ll_fast_eval (mp + 1) mp i V"
proof (induction i)
  case 0
  then show ?case by simp
next
  case (Suc i)
  have "\<bar>ll_eval mp i V\<bar> \<le> mp" using assms by (rule ll_eval_range)
  then have "ll_next mp (ll_eval mp i V) = ll_fast (mp + 1) mp (ll_eval mp i V)"
    using assms(1) by (intro ll_next_fast)
  then show ?case unfolding ll_eval_next ll_fast_eval_next using Suc by simp
qed

lemma uint_double:
  fixes p :: ulong
  assumes "uint p < 9223372036854775808"
  shows "uint (2 * p) = 2 * uint p"
proof -
  have "uint (2 * p) = (2 * uint p) mod 18446744073709551616"
    by (simp add: uint_word_ariths)
  also have "\<dots> = 2 * uint p"
    using assms by (intro mod_pos_pos_trivial) simp_all
  finally show ?thesis .
qed

lemma uint_tlim:
  fixes p :: ulong
  assumes "uint p < 9223372036854775808"
  shows "uint (tlim p) = tlim_eval (uint p)"
  using assms
  by (simp add: tlim_def tlim_eval_def ULONG_MAX_def Let_def word_less_def uint_div uint_double)


lemma ll_loop_fast:
  assumes "3 \<le> unat p" and "p \<noteq> - 1"
  shows "ll_loop intact p (mersenne p) 3 4
    = Some (ll_fast_eval (mersenne p + 1) (mersenne p) (unat p - 2) 4)"
proof -
  have "(2::int) ^ 3 \<le> 2 ^ unat p"
    using assms(1) by (intro power_increasing) simp_all
  then have mp: "7 \<le> mersenne p" by (simp add: mersenne_def)
  have "ll_loop intact p (mersenne p) 3 4
      = Some (ll_eval (mersenne p) (Suc (unat p) - unat (3::ulong)) 4)"
    using assms by (intro ll_loop_eval) simp_all
  also have "Suc (unat p) - unat (3::ulong) = unat p - 2" by simp
  also have "ll_eval (mersenne p) (unat p - 2) 4 = ll_fast_eval (mersenne p + 1) (mersenne p) (unat p - 2) 4"
    using mp by (intro ll_eval_fast) simp_all
  finally show ?thesis .
qed

text \<open>The pipeline over a library without a limit, written out.\<close>

lemma lucas_lehmer_at_unfold:
  "lucas_lehmer_at fs pp p =
     (if p = 2 then Some (Ret_base, 1)
      else
        let t = mpz_of_ui p in
        if \<not> pp t then Some (Ret_exponent, 0)
        else
          let mp = mersenne p in
          if p > 3 \<and> p mod 4 = 3 \<and> pp (t * 2 + 1) \<and> mpz_divisible_p mp (t * 2 + 1)
          then Some (Ret_special, 0)
          else if 2 * p = 0 then None
          else
            (case trial_loop p mp (tlim p) 1 of
               Some q \<Rightarrow> Some (Ret_trial, 0)
             | None \<Rightarrow>
                 map_option (\<lambda>V. (Ret_lucas, if V = 0 then 1 else 0)) (ll_loop fs p mp 3 4)))"
  by (simp add: lucas_lehmer_at_def lucas_lehmer_run_def within_capacity_def Let_def
      split: option.splits)



text \<open>
  A call that returns before line 117 does so whatever the storage of \<open>t\<close> does
  afterwards; a call that returns through line 133 has run the loop on that storage.
\<close>

lemma lucas_lehmer_at_before_loop:
  assumes "lucas_lehmer_at fs' pp p = Some (s, v)" and "s \<noteq> Ret_lucas"
  shows "lucas_lehmer_at fs pp p = Some (s, v)"
  using assms
  by (auto simp: lucas_lehmer_at_unfold Let_def split: if_splits option.splits)

lemma lucas_lehmer_at_loop:
  assumes "lucas_lehmer_at fs' pp p = Some (Ret_lucas, v)"
  shows "lucas_lehmer_at fs pp p
    = map_option (\<lambda>V. (Ret_lucas, if V = 0 then 1 else 0)) (ll_loop fs p (mersenne p) 3 4)"
  using assms
  by (auto simp: lucas_lehmer_at_unfold Let_def split: if_splits option.splits)

lemma ll_loop_step:
  "k \<le> p \<Longrightarrow> ll_loop fs p mp k V
    = Option.bind (ll_body fs p mp k V) (\<lambda>V'. ll_loop fs p mp (k + 1) V')"
  by (subst ll_loop.simps) simp

lemma ll_loop_done: "\<not> k \<le> p \<Longrightarrow> ll_loop fs p mp k V = Some V"
  by (subst ll_loop.simps) simp

lemma lucas_lehmer_at_eval:
  fixes p :: ulong
  assumes lo: "3 \<le> uint p" and hi: "uint p < 9223372036854775808"
  shows "lucas_lehmer_at intact pp p
    = pipeline_eval (pp (uint p)) (pp (uint p * 2 + 1)) (uint p)"
proof -
  have ne2: "p \<noteq> 2" using lo by auto
  have une2: "uint p \<noteq> 2" using lo by simp
  have gt3: "(3 < p) = (3 < uint p)" by (simp add: word_less_def)
  have m4: "(p mod 4 = 3) = (uint p mod 4 = 3)" by (simp add: word_uint_eq_iff uint_mod)
  have "uint (2 * p) \<noteq> 0" using lo hi by (simp add: uint_double)
  then have dbl: "2 * p \<noteq> 0" by auto
  have nm1: "p \<noteq> - 1"
    using hi by (auto simp: unsigned_minus_1_eq_mask mask_eq_exp_minus_1)
  have natu: "nat (uint p) = unat p" by simp
  have un: "3 \<le> unat p" using lo unfolding natu [symmetric] by linarith
  have "unat (tlim p) = nat (uint (tlim p))" by simp
  then have fuel: "unat (tlim p) - unat (1::ulong) = nat (tlim_eval (uint p)) - 1"
    using hi by (simp only: uint_tlim unat_1)
  have mers: "mersenne p = 2 ^ unat p - 1" by (simp add: mersenne_def)
  show ?thesis
    unfolding lucas_lehmer_at_unfold pipeline_eval_def Let_def trial_loop_eval
      ll_loop_fast [OF un nm1] fuel
    using ne2 une2 dbl
    by (simp add: gt3 m4 mpz_of_ui_def mpz_divisible_p_def natu mers split: option.splits)
qed


text \<open>
  The loop against the reference recurrence, with the storage of \<open>t\<close> intact. One pass
  yields \<open>(V^2 - 2) mod mp\<close> when
  \<open>V^2 - 2\<close> is not negative, and \<open>V^2 - 2\<close> itself when it is (for \<open>V\<close> among -1, 0
  and 1: the division of lines 125 and 126 rounds towards zero). So the value of the
  loop is congruent to the reference value, is zero exactly when the reference value
  is, and equals it whenever it is not negative.
\<close>

lemma ll_next_mod: "ll_next mp V mod mp = (V * V - 2) mod mp"
  by (simp add: ll_next_def Let_def)

lemma ll_reference_range:
  assumes "4 < mp"
  shows "0 \<le> ll_reference mp n \<and> ll_reference mp n < mp"
  using assms by (cases n) simp_all

lemma ll_eval_reference_mod:
  assumes "4 < mp"
  shows "ll_eval mp n 4 mod mp = ll_reference mp n"
proof (induction n)
  case 0
  then show ?case using assms by simp
next
  case (Suc n)
  let ?V = "ll_eval mp n 4"
  have "ll_eval mp (Suc n) 4 mod mp = (?V * ?V - 2) mod mp"
    unfolding ll_eval_next by (rule ll_next_mod)
  also have "\<dots> = ((?V mod mp) * (?V mod mp) - 2) mod mp"
    by (metis mod_diff_left_eq mod_mult_eq)
  also have "\<dots> = ll_reference mp (Suc n)"
    by (simp add: Suc)
  finally show ?case .
qed

lemma ll_eval_bounds:
  assumes "4 < mp"
  shows "- 2 \<le> ll_eval mp n 4 \<and> ll_eval mp n 4 < mp"
proof (cases n)
  case 0
  then show ?thesis using assms by simp
next
  case (Suc k)
  have "2 \<le> mp" using assms by simp
  then show ?thesis unfolding Suc ll_eval_next by (rule ll_next_range)
qed

lemma ll_eval_nonneg_exact:
  assumes "4 < mp" and "0 \<le> ll_eval mp n 4"
  shows "ll_eval mp n 4 = ll_reference mp n"
proof -
  have "ll_eval mp n 4 < mp" using ll_eval_bounds [OF assms(1)] by simp
  then have "ll_eval mp n 4 mod mp = ll_eval mp n 4" using assms(2) by simp
  then show ?thesis using ll_eval_reference_mod [OF assms(1), of n] by simp
qed

lemma ll_eval_zero_iff:
  assumes "4 < mp"
  shows "(ll_eval mp n 4 = 0) = (ll_reference mp n = 0)"
proof (cases "0 \<le> ll_eval mp n 4")
  case True
  then show ?thesis using ll_eval_nonneg_exact [OF assms] by simp
next
  case False
  let ?V = "ll_eval mp n 4"
  have b: "- 2 \<le> ?V" "?V < 0" using ll_eval_bounds [OF assms, of n] False by simp_all
  have "(?V + mp) mod mp = ?V + mp"
    using b assms by (intro mod_pos_pos_trivial) simp_all
  then have "ll_reference mp n = ?V + mp"
    using ll_eval_reference_mod [OF assms, of n] by simp
  then show ?thesis using b assms by simp
qed

lemma ll_eval_exact:
  assumes "4 < mp" and "\<And>j. j < n \<Longrightarrow> 2 \<le> ll_reference mp j"
  shows "ll_eval mp n 4 = ll_reference mp n"
  using assms(2)
proof (induction n)
  case 0
  then show ?case by simp
next
  case (Suc n)
  then have eq: "ll_eval mp n 4 = ll_reference mp n" and ge: "2 \<le> ll_reference mp n"
    by simp_all
  have "2 * 2 \<le> ll_reference mp n * ll_reference mp n"
    using ge by (intro mult_mono) simp_all
  then have "\<not> ll_reference mp n * ll_reference mp n - 2 < 0" by simp
  then show ?case
    unfolding ll_eval_next eq by (simp add: ll_next_def Let_def)
qed

lemma ll_next_at_zero: "ll_next mp 0 = - 2"
  by (simp add: ll_next_def)

lemma ll_body_at_zero:
  "ll_body intact 5 (mersenne 5) k 0 = Some (- 2) \<and> ((0 :: int) * 0 - 2) mod mersenne 5 = 29"
  using ll_body_closed [of 5 k 0] by (simp add: ll_next_def mersenne_def)

lemma ll_loop_reference:
  fixes p :: ulong
  assumes "3 \<le> unat p" and "p \<noteq> - 1"
  shows "\<exists>V. ll_loop intact p (mersenne p) 3 4 = Some V
    \<and> V mod mersenne p = ll_reference (mersenne p) (unat p - 2)
    \<and> (V = 0) = (ll_reference (mersenne p) (unat p - 2) = 0)
    \<and> (0 \<le> V \<longrightarrow> V = ll_reference (mersenne p) (unat p - 2))"
proof -
  have "(2::int) ^ 3 \<le> 2 ^ unat p"
    using assms(1) by (intro power_increasing) simp_all
  then have mp: "4 < mersenne p" by (simp add: mersenne_def)
  have "ll_loop intact p (mersenne p) 3 4
      = Some (ll_eval (mersenne p) (Suc (unat p) - unat (3::ulong)) 4)"
    using assms by (intro ll_loop_eval) simp_all
  then have "ll_loop intact p (mersenne p) 3 4 = Some (ll_eval (mersenne p) (unat p - 2) 4)"
    by simp
  then show ?thesis
    using ll_eval_reference_mod [OF mp] ll_eval_zero_iff [OF mp] ll_eval_nonneg_exact [OF mp]
    by simp
qed

lemma pipeline_eval_no_special:
  "\<not> (3 < n \<and> n mod 4 = 3 \<and> (n * 2 + 1) dvd 2 ^ nat n - 1) \<Longrightarrow>
    pipeline_eval b1 b2 n = pipeline_eval b1 False n"
  by (auto simp: pipeline_eval_def Let_def)

lemma pipeline_eval_rejected: "n \<noteq> 2 \<Longrightarrow> pipeline_eval False b2 n = Some (Ret_exponent, 0)"
  by (simp add: pipeline_eval_def)

lemma verdict_prime:
  fixes p :: ulong
  assumes "3 \<le> uint p" "uint p < 9223372036854775808"
    and "pp (uint p)"
    and "\<not> (3 < uint p \<and> uint p mod 4 = 3 \<and> (uint p * 2 + 1) dvd 2 ^ nat (uint p) - 1)"
    and "pipeline_eval True False (uint p) = Some (s, v)"
  shows "lucas_lehmer_at intact pp p = Some (s, v)"
  using assms pipeline_eval_no_special [OF assms(4), of True "pp (uint p * 2 + 1)"]
  by (simp add: lucas_lehmer_at_eval)

lemma verdict_composite:
  fixes p :: ulong
  assumes "3 \<le> uint p" "uint p < 9223372036854775808"
    and "pipeline_eval True False (uint p) = Some (s, 0)"
    and "pipeline_eval True True (uint p) = Some (s', 0)"
  shows "lucas_lehmer_at intact pp p \<in> {Some (Ret_exponent, 0), Some (s, 0), Some (s', 0)}"
proof -
  have "uint p \<noteq> 2" using assms(1) by simp
  then show ?thesis
    using assms
    by (cases "pp (uint p)"; cases "pp (uint p * 2 + 1)")
      (simp_all add: lucas_lehmer_at_eval pipeline_eval_rejected)
qed

lemma is_prime_exponents:
  "is_prime 3" "is_prime 5" "is_prime 7" "is_prime 13" "is_prime 17" "is_prime 19"
  "is_prime 31" "is_prime 61" "is_prime 89" "is_prime 107" "is_prime 127"
  by code_simp+

lemma eval_3: "pipeline_eval True False 3 = Some (Ret_lucas, 1)" by code_simp
lemma eval_5: "pipeline_eval True False 5 = Some (Ret_lucas, 1)" by code_simp
lemma eval_7: "pipeline_eval True False 7 = Some (Ret_lucas, 1)" by code_simp
lemma eval_13: "pipeline_eval True False 13 = Some (Ret_lucas, 1)" by code_simp
lemma eval_17: "pipeline_eval True False 17 = Some (Ret_lucas, 1)" by code_simp
lemma eval_19: "pipeline_eval True False 19 = Some (Ret_lucas, 1)" by code_simp
lemma eval_31: "pipeline_eval True False 31 = Some (Ret_lucas, 1)" by code_simp
lemma eval_61: "pipeline_eval True False 61 = Some (Ret_lucas, 1)" by code_simp
lemma eval_89: "pipeline_eval True False 89 = Some (Ret_lucas, 1)" by code_simp
lemma eval_107: "pipeline_eval True False 107 = Some (Ret_lucas, 1)" by code_simp
lemma eval_127: "pipeline_eval True False 127 = Some (Ret_lucas, 1)" by code_simp

lemma eval_11: "pipeline_eval True False 11 = Some (Ret_trial, 0)"
  "pipeline_eval True True 11 = Some (Ret_special, 0)" by code_simp+
lemma eval_23: "pipeline_eval True False 23 = Some (Ret_trial, 0)"
  "pipeline_eval True True 23 = Some (Ret_special, 0)" by code_simp+
lemma eval_29: "pipeline_eval True False 29 = Some (Ret_trial, 0)"
  "pipeline_eval True True 29 = Some (Ret_trial, 0)" by code_simp+
lemma eval_37: "pipeline_eval True False 37 = Some (Ret_trial, 0)"
  "pipeline_eval True True 37 = Some (Ret_trial, 0)" by code_simp+
lemma eval_41: "pipeline_eval True False 41 = Some (Ret_lucas, 0)"
  "pipeline_eval True True 41 = Some (Ret_lucas, 0)" by code_simp+
lemma eval_43: "pipeline_eval True False 43 = Some (Ret_trial, 0)"
  "pipeline_eval True True 43 = Some (Ret_trial, 0)" by code_simp+
lemma eval_47: "pipeline_eval True False 47 = Some (Ret_lucas, 0)"
  "pipeline_eval True True 47 = Some (Ret_lucas, 0)" by code_simp+
lemma eval_53: "pipeline_eval True False 53 = Some (Ret_lucas, 0)"
  "pipeline_eval True True 53 = Some (Ret_lucas, 0)" by code_simp+


lemma verdict_prime_intact:
  fixes p :: ulong
  assumes "3 \<le> uint p" "uint p < 9223372036854775808"
    and "pp (uint p)"
    and "\<not> (3 < uint p \<and> uint p mod 4 = 3 \<and> (uint p * 2 + 1) dvd 2 ^ nat (uint p) - 1)"
    and "pipeline_eval True False (uint p) = Some (s, v)"
  shows "lucas_lehmer intact pp p = Some v"
proof -
  have "lucas_lehmer_at intact pp p = Some (s, v)"
    using assms by (rule verdict_prime)
  then show ?thesis by (simp add: lucas_lehmer_def)
qed

lemma verdict_composite_intact:
  fixes p :: ulong
  assumes "3 \<le> uint p" "uint p < 9223372036854775808"
    and "pipeline_eval True False (uint p) = Some (s, 0)"
    and "pipeline_eval True True (uint p) = Some (s', 0)"
  shows "lucas_lehmer intact pp p = Some 0"
proof -
  have "lucas_lehmer_at intact pp p \<in> {Some (Ret_exponent, 0), Some (s, 0), Some (s', 0)}"
    using assms by (rule verdict_composite)
  then show ?thesis by (auto simp: lucas_lehmer_def)
qed

lemma verdict_composite_before_loop:
  fixes p :: ulong
  assumes "3 \<le> uint p" "uint p < 9223372036854775808"
    and "pipeline_eval True False (uint p) = Some (s, 0)"
    and "pipeline_eval True True (uint p) = Some (s', 0)"
    and "s \<noteq> Ret_lucas" and "s' \<noteq> Ret_lucas"
  shows "lucas_lehmer fs pp p = Some 0"
proof -
  have "lucas_lehmer_at intact pp p \<in> {Some (Ret_exponent, 0), Some (s, 0), Some (s', 0)}"
    using assms(1-4) by (rule verdict_composite)
  then obtain x where "lucas_lehmer_at intact pp p = Some (x, 0)" and "x \<noteq> Ret_lucas"
    using assms(5,6) by auto
  then have "lucas_lehmer_at fs pp p = Some (x, 0)"
    by (rule lucas_lehmer_at_before_loop)
  then show ?thesis by (simp add: lucas_lehmer_def)
qed

text \<open>
  The loop when line 127 finds 0 in \<open>t\<close>: the first pass leaves the quotient of 14 by
  \<open>2^p\<close>, which is 0 from \<open>p = 4\<close> on, and 0 stays.
\<close>

lemma ll_body_reads_as_zero:
  assumes "4 \<le> unat p" and "V = 4 \<or> V = 0"
  shows "ll_body (reads_as 0) p (mersenne p) k V = Some 0"
proof -
  have "(2::int) ^ 4 \<le> 2 ^ unat p"
    using assms(1) by (intro power_increasing) simp_all
  then have pw: "(16::int) \<le> 2 ^ unat p" by simp
  then have mp: "0 < mersenne p" by (simp add: mersenne_def)
  have "mpz_tdiv_q_2exp (V * V - 2) p = 0"
    using assms(2) pw by (auto simp: mpz_tdiv_q_2exp_def)
  then show ?thesis
    using mp by (simp add: ll_body_def reads_as_def Let_def reduce_loop_below)
qed

lemma ll_loop_reads_as_zero:
  assumes "4 \<le> unat p" and "p \<noteq> - 1" and "V = 4 \<or> V = 0" and "k \<le> p"
  shows "ll_loop (reads_as 0) p (mersenne p) k V = Some 0"
  using assms(3,4)
proof (induction "unat p - unat k" arbitrary: k V)
  case 0
  then have "k = p" by (simp add: word_le_nat_alt word_unat_eq_iff)
  then have "\<not> k + 1 \<le> p"
    using unat_incr_le [of p p] assms(2) by (simp add: word_le_nat_alt)
  then show ?case
    using 0 assms(1) by (simp add: ll_loop_step ll_body_reads_as_zero ll_loop_done)
next
  case (Suc n)
  have inc: "unat (k + 1) = Suc (unat k)"
    using Suc.prems(2) assms(2) by (rule unat_incr_le)
  then have "k + 1 \<le> p" "n = unat p - unat (k + 1)"
    using Suc.hyps(2) by (simp_all add: word_le_nat_alt)
  then have "ll_loop (reads_as 0) p (mersenne p) (k + 1) 0 = Some 0"
    using Suc.hyps(1) by blast
  then show ?case
    using Suc.prems assms(1) by (simp add: ll_loop_step ll_body_reads_as_zero)
qed

lemma ll_loop_reads_as_zero_at_3: "ll_loop (reads_as 0) 3 (mersenne 3) 3 4 = Some 1"
proof -
  have "ll_body (reads_as 0) 3 (mersenne 3) 3 4 = Some 1"
    by (simp add: ll_body_def reads_as_def mpz_tdiv_q_2exp_def mersenne_def reduce_loop_below)
  then show ?thesis
    by (simp add: ll_loop_step ll_loop_done)
qed

lemma ll_loop_aborting: "k \<le> p \<Longrightarrow> ll_loop aborting p mp k V = None"
  by (simp add: ll_loop_step ll_body_def aborting_def)


subsection \<open>Verdicts on the listed exponents\<close>

text \<open>
  The twenty exponents of the specification fall into two groups. Six of them leave
  \<open>lucas_lehmer\<close> before line 117, and their verdict is the listed one whatever the
  storage of \<open>t\<close> does: 2 (line 82), and 11, 23, 29, 37, 43 (line 88, 102 or 113). The
  library test is only required never to reject a prime.
\<close>

lemma verdicts_before_line_117:
  "lucas_lehmer fs pp 2 = Some 1 \<and> lucas_lehmer fs pp 11 = Some 0
   \<and> lucas_lehmer fs pp 23 = Some 0 \<and> lucas_lehmer fs pp 29 = Some 0
   \<and> lucas_lehmer fs pp 37 = Some 0 \<and> lucas_lehmer fs pp 43 = Some 0"
proof -
  have "lucas_lehmer fs pp 2 = Some 1"
    by (simp add: lucas_lehmer_def lucas_lehmer_at_unfold)
  moreover have "lucas_lehmer fs pp 11 = Some 0"
    by (rule verdict_composite_before_loop [where s = Ret_trial and s' = Ret_special])
      (simp_all add: eval_11)
  moreover have "lucas_lehmer fs pp 23 = Some 0"
    by (rule verdict_composite_before_loop [where s = Ret_trial and s' = Ret_special])
      (simp_all add: eval_23)
  moreover have "lucas_lehmer fs pp 29 = Some 0"
    by (rule verdict_composite_before_loop [where s = Ret_trial and s' = Ret_trial])
      (simp_all add: eval_29)
  moreover have "lucas_lehmer fs pp 37 = Some 0"
    by (rule verdict_composite_before_loop [where s = Ret_trial and s' = Ret_trial])
      (simp_all add: eval_37)
  moreover have "lucas_lehmer fs pp 43 = Some 0"
    by (rule verdict_composite_before_loop [where s = Ret_trial and s' = Ret_trial])
      (simp_all add: eval_43)
  ultimately show ?thesis by simp
qed

text \<open>
  The other fourteen run the loop of lines 122 to 129, which uses \<open>t\<close> after line 117
  has cleared it. With the storage \<open>intact\<close> all twenty verdicts are the listed ones.
\<close>

lemma verdicts_with_storage_intact:
  assumes never_rejects_a_prime: "\<And>n. is_prime n \<Longrightarrow> pp n"
  shows "(\<forall>p \<in> set mersenne_exponents. lucas_lehmer intact pp p = Some 1)
       \<and> (\<forall>p \<in> set composite_exponents. lucas_lehmer intact pp p = Some 0)"
proof -
  have "lucas_lehmer intact pp 2 = Some 1"
    by (simp add: lucas_lehmer_def lucas_lehmer_at_unfold)
  moreover have "lucas_lehmer intact pp 3 = Some 1"
    by (rule verdict_prime_intact [where s = Ret_lucas])
      (simp_all add: never_rejects_a_prime is_prime_exponents eval_3)
  moreover have "lucas_lehmer intact pp 5 = Some 1"
    by (rule verdict_prime_intact [where s = Ret_lucas])
      (simp_all add: never_rejects_a_prime is_prime_exponents eval_5)
  moreover have "lucas_lehmer intact pp 7 = Some 1"
    by (rule verdict_prime_intact [where s = Ret_lucas])
      (simp_all add: never_rejects_a_prime is_prime_exponents eval_7)
  moreover have "lucas_lehmer intact pp 13 = Some 1"
    by (rule verdict_prime_intact [where s = Ret_lucas])
      (simp_all add: never_rejects_a_prime is_prime_exponents eval_13)
  moreover have "lucas_lehmer intact pp 17 = Some 1"
    by (rule verdict_prime_intact [where s = Ret_lucas])
      (simp_all add: never_rejects_a_prime is_prime_exponents eval_17)
  moreover have "lucas_lehmer intact pp 19 = Some 1"
    by (rule verdict_prime_intact [where s = Ret_lucas])
      (simp_all add: never_rejects_a_prime is_prime_exponents eval_19)
  moreover have "lucas_lehmer intact pp 31 = Some 1"
    by (rule verdict_prime_intact [where s = Ret_lucas])
      (simp_all add: never_rejects_a_prime is_prime_exponents eval_31)
  moreover have "lucas_lehmer intact pp 61 = Some 1"
    by (rule verdict_prime_intact [where s = Ret_lucas])
      (simp_all add: never_rejects_a_prime is_prime_exponents eval_61)
  moreover have "lucas_lehmer intact pp 89 = Some 1"
    by (rule verdict_prime_intact [where s = Ret_lucas])
      (simp_all add: never_rejects_a_prime is_prime_exponents eval_89)
  moreover have "lucas_lehmer intact pp 107 = Some 1"
    by (rule verdict_prime_intact [where s = Ret_lucas])
      (simp_all add: never_rejects_a_prime is_prime_exponents eval_107)
  moreover have "lucas_lehmer intact pp 127 = Some 1"
    by (rule verdict_prime_intact [where s = Ret_lucas])
      (simp_all add: never_rejects_a_prime is_prime_exponents eval_127)
  moreover have "lucas_lehmer intact pp 11 = Some 0"
    by (rule verdict_composite_intact) (simp_all add: eval_11)
  moreover have "lucas_lehmer intact pp 23 = Some 0"
    by (rule verdict_composite_intact) (simp_all add: eval_23)
  moreover have "lucas_lehmer intact pp 29 = Some 0"
    by (rule verdict_composite_intact) (simp_all add: eval_29)
  moreover have "lucas_lehmer intact pp 37 = Some 0"
    by (rule verdict_composite_intact) (simp_all add: eval_37)
  moreover have "lucas_lehmer intact pp 41 = Some 0"
    by (rule verdict_composite_intact) (simp_all add: eval_41)
  moreover have "lucas_lehmer intact pp 43 = Some 0"
    by (rule verdict_composite_intact) (simp_all add: eval_43)
  moreover have "lucas_lehmer intact pp 47 = Some 0"
    by (rule verdict_composite_intact) (simp_all add: eval_47)
  moreover have "lucas_lehmer intact pp 53 = Some 0"
    by (rule verdict_composite_intact) (simp_all add: eval_53)
  ultimately show ?thesis
    by (simp add: mersenne_exponents_def composite_exponents_def)
qed

lemma site_of_3_and_41:
  "lucas_lehmer_at intact is_prime 3 = Some (Ret_lucas, 1)"
  "lucas_lehmer_at intact is_prime 41 = Some (Ret_lucas, 0)"
proof -
  have p: "is_prime 3" "is_prime 41" by code_simp+
  show "lucas_lehmer_at intact is_prime 3 = Some (Ret_lucas, 1)"
    by (rule verdict_prime) (simp_all add: p eval_3)
  show "lucas_lehmer_at intact is_prime 41 = Some (Ret_lucas, 0)"
    by (rule verdict_prime) (simp_all add: p eval_41)
qed

text \<open>
  Claim C1. For every exponent in \<open>{2, 3, 5, 7, 13, 17, 19, 31, 61, 89, 107, 127}\<close>
  \<open>lucas_lehmer\<close> returns 1 (prime), and for every exponent in
  \<open>{11, 23, 29, 37, 41, 43, 47, 53}\<close> it returns 0 (not prime). The code does not
  deliver this: the verdict of an exponent that reaches line 122 is decided by the
  storage line 117 has given back. When line 127 finds 0 in \<open>t\<close>, the call returns 0
  for \<open>p = 3\<close>, where \<open>2^3 - 1 = 7\<close> is prime, and 1 for \<open>p = 41\<close>, where \<open>2^41 - 1\<close> is
  not; when the library aborts on the freed block, the call does not return; only
  with the storage intact are the verdicts the listed ones.
\<close>

theorem verdict_decided_by_freed_storage:
  "lucas_lehmer (reads_as 0) is_prime 3 = Some 0
   \<and> lucas_lehmer (reads_as 0) is_prime 41 = Some 1
   \<and> lucas_lehmer aborting is_prime 3 = None
   \<and> lucas_lehmer intact is_prime 3 = Some 1
   \<and> lucas_lehmer intact is_prime 41 = Some 0"
proof -
  have "ll_loop (reads_as 0) 41 (mersenne 41) 3 4 = Some 0"
    by (rule ll_loop_reads_as_zero) simp_all
  then have "lucas_lehmer_at (reads_as 0) is_prime 41 = Some (Ret_lucas, 1)"
    unfolding lucas_lehmer_at_loop [OF site_of_3_and_41(2)] by simp
  moreover have "lucas_lehmer_at (reads_as 0) is_prime 3 = Some (Ret_lucas, 0)"
    unfolding lucas_lehmer_at_loop [OF site_of_3_and_41(1)] ll_loop_reads_as_zero_at_3
    by simp
  moreover have "ll_loop aborting 3 (mersenne 3) 3 4 = None"
    by (rule ll_loop_aborting) simp
  then have "lucas_lehmer_at aborting is_prime 3 = None"
    unfolding lucas_lehmer_at_loop [OF site_of_3_and_41(1)] by simp
  ultimately show ?thesis
    using site_of_3_and_41 by (simp add: lucas_lehmer_def)
qed

subsection \<open>The Lucas-Lehmer loop against the reference recurrence\<close>

text \<open>
  Claim C4. For every prime \<open>p \<ge> 3\<close> that reaches the loop of lines 122 to 129, the
  loop computes exactly the reference sequence \<open>V_1 = 4\<close>,
  \<open>V_{k+1} = (V_k^2 - 2) mod M_p\<close>. The code does not deliver this either, and for
  the same reason: the sum of line 127 takes \<open>t\<close> from storage that line 117 has given
  back. At \<open>p = 3\<close> the loop makes one pass; the reference value is
  \<open>(4^2 - 2) mod 7 = 0\<close>, and the loop ends with 1 when line 127 finds 0 in \<open>t\<close>, and
  does not end when the library aborts there. (With the storage intact the loop
  agrees with the reference up to the residues \<open>M_p - 2\<close> and \<open>M_p - 1\<close>, which it
  holds as -2 and -1: lemma \<open>ll_loop_reference\<close>.)
\<close>

theorem loop_leaves_reference_on_freed_storage:
  "ll_reference (mersenne 3) (unat (3 :: ulong) - 2) = 0
   \<and> ll_loop (reads_as 0) 3 (mersenne 3) 3 4 = Some 1
   \<and> ll_loop aborting 3 (mersenne 3) 3 4 = None
   \<and> ll_loop intact 3 (mersenne 3) 3 4 = Some 0"
proof -
  have "ll_fast_eval (mersenne 3 + 1) (mersenne 3) (unat (3 :: ulong) - 2) 4 = 0"
    by (simp add: mersenne_def ll_fast_def)
  then have "ll_loop intact 3 (mersenne 3) 3 4 = Some 0"
    using ll_loop_fast [of 3] by simp
  moreover have "ll_loop aborting 3 (mersenne 3) 3 4 = None"
    by (rule ll_loop_aborting) simp
  moreover have "ll_reference (mersenne 3) (unat (3 :: ulong) - 2) = 0"
    by (simp add: mersenne_def)
  ultimately show ?thesis
    using ll_loop_reads_as_zero_at_3 by simp
qed

subsection \<open>The bound of the trial division\<close>

text \<open>
  Line 107 forms \<open>2 * p\<close> in \<open>unsigned long\<close>, so the expression itself wraps from
  \<open>p = 2^63\<close> on: at \<open>p = 2^63 + 29\<close> the product is 58 and the bound
  \<open>ULONG_MAX / 58\<close>.
\<close>

lemma tlim_expression_beyond_2_63:
  "2 * (9223372036854775837 :: ulong) = 58
   \<and> tlim 9223372036854775837 = 318047311615681924
   \<and> uint ULONG_MAX div (2 * uint (9223372036854775837 :: ulong)) = 0"
  by (simp add: tlim_def ULONG_MAX_def)



subsection \<open>The special factor filter\<close>

text \<open>
  Claim C5, as stated: every \<open>p > 3\<close> with \<open>p mod 4 = 3\<close> for which \<open>2p + 1\<close> is
  (probably) prime and divides \<open>2^p - 1\<close> is rejected at the special factor filter. With
  an exact primality test, \<open>p = 15\<close> meets all of this (31 is prime and divides
  \<open>2^15 - 1 = 32767\<close>), and is rejected one stage earlier, by the exponent filter at
  line 88.
\<close>

theorem special_filter_counterexample:
  "(3 :: ulong) < 15 \<and> (15 :: ulong) mod 4 = 3
   \<and> is_prime (mpz_of_ui 15 * 2 + 1)
   \<and> mpz_divisible_p (mersenne 15) (mpz_of_ui 15 * 2 + 1)
   \<and> lucas_lehmer_at intact is_prime 15 = Some (Ret_exponent, 0)"
proof -
  have "is_prime 31" "\<not> is_prime 15" by code_simp+
  then show ?thesis
    by (simp add: lucas_lehmer_at_unfold mpz_of_ui_def mpz_divisible_p_def mersenne_def)
qed

text \<open>
  Claim C5, amended: such a \<open>p\<close> is rejected before the trial division and the
  Lucas-Lehmer loop; at the special factor filter (line 102) when \<open>p\<close> itself passes
  the exponent filter, at the exponent filter (line 88) when it does not. The exponent
  11, with \<open>q = 23\<close>, is rejected at the special factor filter. Both returns come
  before line 117, so the statement holds for every behaviour \<open>fs\<close> of the storage
  of \<open>t\<close>.
\<close>

theorem special_filter_rejects:
  assumes "3 < p" and "p mod 4 = 3"
    and "pp (mpz_of_ui p * 2 + 1)"
    and "mpz_divisible_p (mersenne p) (mpz_of_ui p * 2 + 1)"
  shows "lucas_lehmer_at fs pp p
    = Some (if pp (mpz_of_ui p) then Ret_special else Ret_exponent, 0)"
proof -
  have "p \<noteq> 2" using assms(1) by auto
  then show ?thesis
    using assms by (simp add: lucas_lehmer_at_unfold Let_def)
qed

theorem special_filter_rejects_witness:
  "(3 :: ulong) < 11 \<and> (11 :: ulong) mod 4 = 3
   \<and> is_prime (mpz_of_ui 11 * 2 + 1)
   \<and> mpz_divisible_p (mersenne 11) (mpz_of_ui 11 * 2 + 1)
   \<and> lucas_lehmer_at intact is_prime 11 = Some (Ret_special, 0)"
proof -
  have p: "is_prime 23" "is_prime 11" by code_simp+
  have h: "(3 :: ulong) < 11" "(11 :: ulong) mod 4 = 3" "is_prime (mpz_of_ui 11 * 2 + 1)"
    "mpz_divisible_p (mersenne 11) (mpz_of_ui 11 * 2 + 1)"
    using p by (simp_all add: mpz_of_ui_def mpz_divisible_p_def mersenne_def)
  show ?thesis
    using h special_filter_rejects [where p = 11 and pp = is_prime and fs = intact, OF h] p
    by (simp add: mpz_of_ui_def)
qed

subsection \<open>The trial division on its own\<close>

text \<open>
  Claim C6. The trial-division loop, applied to \<open>p = 11\<close> and to \<open>p = 23\<close>, stops at
  the divisors 23 and 47; and when the special factor filter does not fire, the
  pipeline leaves through line 113 with the verdict 0, before the Lucas-Lehmer loop
  (and before line 117: for every behaviour \<open>fs\<close> of the storage of \<open>t\<close>).
\<close>

theorem trial_division_rejects_11_and_23:
  "trial_loop 11 (mersenne 11) (tlim 11) 1 = Some 23
   \<and> trial_loop 23 (mersenne 23) (tlim 23) 1 = Some 47
   \<and> lucas_lehmer_at fs (accepts_only 11) 11 = Some (Ret_trial, 0)
   \<and> lucas_lehmer_at fs (accepts_only 23) 23 = Some (Ret_trial, 0)"
proof -
  have t: "tlim 11 = 5" "tlim 23 = 11"
    by (simp_all add: tlim_def ULONG_MAX_def)
  have e: "trial_eval 11 2047 4 1 = Some 23" "trial_eval 23 8388607 10 1 = Some 47"
    by code_simp+
  have "trial_loop 11 (mersenne 11) (tlim 11) 1 = Some 23"
    "trial_loop 23 (mersenne 23) (tlim 23) 1 = Some 47"
    by (simp_all add: trial_loop_eval t mersenne_def e)
  moreover have i: "lucas_lehmer_at intact (accepts_only 11) 11 = Some (Ret_trial, 0)"
    "lucas_lehmer_at intact (accepts_only 23) 23 = Some (Ret_trial, 0)"
    by (simp_all add: lucas_lehmer_at_eval accepts_only_def eval_11 eval_23)
  have "lucas_lehmer_at fs (accepts_only 11) 11 = Some (Ret_trial, 0)"
    by (rule lucas_lehmer_at_before_loop [OF i(1)]) simp
  moreover have "lucas_lehmer_at fs (accepts_only 23) 23 = Some (Ret_trial, 0)"
    by (rule lucas_lehmer_at_before_loop [OF i(2)]) simp
  ultimately show ?thesis by simp
qed

subsection \<open>Exponents below the domain\<close>

text \<open>
  Claim C10. For \<open>p = 0\<close> and \<open>p = 1\<close> (the second is the first candidate of a run
  without arguments) \<open>lucas_lehmer\<close> returns, and returns 0 through the exponent filter
  at line 88, once the library test rejects both numbers: no later stage is reached
  (so the storage of \<open>t\<close> plays no part: the statement holds for every \<open>fs\<close>).
\<close>

theorem below_domain_rejected:
  assumes "\<not> pp 0" and "\<not> pp 1"
  shows "lucas_lehmer_at fs pp 0 = Some (Ret_exponent, 0)
    \<and> lucas_lehmer_at fs pp 1 = Some (Ret_exponent, 0)
    \<and> lucas_lehmer fs pp 0 = Some 0 \<and> lucas_lehmer fs pp 1 = Some 0
    \<and> main_start [prog] = 1"
  using assms
  by (simp add: lucas_lehmer_def lucas_lehmer_at_unfold mpz_of_ui_def main_start_def)

theorem below_domain_rejected_witness:
  "\<not> is_prime 0 \<and> \<not> is_prime 1
   \<and> lucas_lehmer_at intact is_prime 0 = Some (Ret_exponent, 0)
   \<and> lucas_lehmer_at intact is_prime 1 = Some (Ret_exponent, 0)
   \<and> lucas_lehmer intact is_prime 0 = Some 0 \<and> lucas_lehmer intact is_prime 1 = Some 0
   \<and> main_start [''prime11''] = 1"
proof -
  have h: "\<not> is_prime 0" "\<not> is_prime 1" by (simp_all add: is_prime_def)
  show ?thesis
    using h below_domain_rejected [OF h, of intact "''prime11''"] by simp
qed
section \<open>Properties of the task queue\<close>

lemma c_rem_mod: "0 \<le> a \<Longrightarrow> 0 < b \<Longrightarrow> c_rem a b = a mod b"
  by (cases "a = 0") (simp_all add: c_rem_def sgn_if)

lemma mod_shift_inj:
  fixes h C :: int
  assumes "0 < C" "0 \<le> i" "i < j" "j < C"
  shows "(h + i) mod C \<noteq> (h + j) mod C"
proof
  assume "(h + i) mod C = (h + j) mod C"
  then have "C dvd (h + j) - (h + i)"
    by (metis mod_eq_dvd_iff)
  then have "C dvd j - i" by simp
  moreover have "0 < j - i" "j - i < C" using assms by simp_all
  ultimately show False
    using zdvd_not_zless by blast
qed

lemma slots_length [simp]: "length (slots q) = nat (count q)"
  by (simp add: slots_def)

lemma contents_sem [simp]:
  "contents (q \<lparr> sem_empty := e \<rparr>) = contents q"
  "contents (q \<lparr> sem_full := f \<rparr>) = contents q"
  by (simp_all add: contents_def slots_def)

lemma slots_enqueue:
  assumes "0 \<le> count q"
  shows "slots (enqueue_locked q d) = slots q @ [nat ((head q + count q) mod max_tasks q)]"
proof -
  have "nat (count q + 1) = Suc (nat (count q))" using assms by simp
  then show ?thesis using assms by (simp add: slots_def enqueue_locked_def)
qed

lemma tail_not_in_slots:
  assumes "0 < max_tasks q" "0 \<le> count q" "count q < max_tasks q"
  shows "nat ((head q + count q) mod max_tasks q) \<notin> set (slots q)"
proof
  assume "nat ((head q + count q) mod max_tasks q) \<in> set (slots q)"
  then obtain j where j: "j < nat (count q)"
    and eq: "nat ((head q + count q) mod max_tasks q) = nat ((head q + int j) mod max_tasks q)"
    by (auto simp: slots_def)
  have "0 \<le> (head q + count q) mod max_tasks q" "0 \<le> (head q + int j) mod max_tasks q"
    using assms(1) by simp_all
  with eq have "(head q + int j) mod max_tasks q = (head q + count q) mod max_tasks q"
    by linarith
  moreover have "(head q + int j) mod max_tasks q \<noteq> (head q + count q) mod max_tasks q"
    using assms j by (intro mod_shift_inj) simp_all
  ultimately show False by simp
qed

lemma contents_enqueue:
  assumes "0 < max_tasks q" "0 \<le> count q" "count q < max_tasks q"
    and "length (tasks q) = nat (max_tasks q)"
    and "tail q = (head q + count q) mod max_tasks q"
  shows "contents (enqueue_locked q d) = contents q @ [d]"
proof -
  let ?t = "nat (tail q)"
  have t_lt: "?t < length (tasks q)"
    using assms(1,4,5) by (simp add: nat_less_iff)
  have notin: "?t \<notin> set (slots q)"
    using tail_not_in_slots [OF assms(1-3)] assms(5) by simp
  have tk: "tasks (enqueue_locked q d) = (tasks q)[?t := d]"
    by (simp add: enqueue_locked_def)
  have "map (\<lambda>i. (tasks q)[?t := d] ! i) (slots q) = map (\<lambda>i. tasks q ! i) (slots q)"
  proof (intro map_cong refl nth_list_update_neq)
    fix x assume "x \<in> set (slots q)"
    with notin show "?t \<noteq> x" by auto
  qed
  then show ?thesis
    using t_lt assms(5) by (simp add: contents_def slots_enqueue [OF assms(2)] tk)
qed

lemma contents_dequeue:
  assumes "0 < max_tasks q" "0 < count q" "0 \<le> head q" "head q < max_tasks q"
  shows "contents q = fst (dequeue_locked q) # contents (snd (dequeue_locked q))"
proof -
  let ?C = "max_tasks q"
  define n where "n = nat (count q - 1)"
  have n: "nat (count q) = Suc n" "nat (count q - 1) = n"
    using assms(2) by (simp_all add: n_def)
  have upt: "[0..<Suc n] = 0 # map Suc [0..<n]"
    by (simp add: upt_conv_Cons map_Suc_upt del: upt_Suc)
  have h: "c_rem (head q + 1) ?C = (head q + 1) mod ?C"
    using assms by (intro c_rem_mod) simp_all
  have hm: "head q mod ?C = head q" using assms by simp
  have shift: "((head q + 1) mod ?C + int j) mod ?C = (head q + int (Suc j)) mod ?C" for j
  proof -
    have "((head q + 1) mod ?C + int j) mod ?C = (head q + 1 + int j) mod ?C"
      by (rule mod_add_left_eq)
    also have "head q + 1 + int j = head q + int (Suc j)" by simp
    finally show ?thesis .
  qed
  have "slots q = nat (head q) # slots (snd (dequeue_locked q))"
    unfolding slots_def
    by (simp add: n upt dequeue_locked_def h hm shift comp_def del: upt_Suc of_nat_Suc)
  then show ?thesis
    by (simp add: contents_def dequeue_locked_def)
qed

lemma sum_list_map_update:
  fixes f :: "'a \<Rightarrow> int"
  shows "i < length ts \<Longrightarrow> sum_list (map f (ts[i := c])) = sum_list (map f ts) - f (ts ! i) + f c"
proof (induction ts arbitrary: i)
  case Nil
  then show ?case by simp
next
  case (Cons t ts)
  then show ?case by (cases i) simp_all
qed

lemma sum_list_map_member:
  fixes f :: "'a \<Rightarrow> int"
  assumes "\<And>c. 0 \<le> f c"
  shows "i < length ts \<Longrightarrow> f (ts ! i) \<le> sum_list (map f ts)"
proof (induction ts arbitrary: i)
  case Nil
  then show ?case by simp
next
  case (Cons t ts)
  have nonneg: "0 \<le> sum_list (map f ts)"
    using assms by (intro sum_list_nonneg) auto
  show ?case
  proof (cases i)
    case 0
    then show ?thesis using nonneg by simp
  next
    case (Suc j)
    then have "f (ts ! j) \<le> sum_list (map f ts)" using Cons by simp
    then show ?thesis using Suc assms [of t] by simp
  qed
qed

lemma holds_nonneg: "0 \<le> holds_empty c" "0 \<le> holds_full c"
  by (simp_all add: holds_empty_def holds_full_def split: pc.splits)

lemma holds_simps [simp]:
  "holds_empty Idle = 0" "holds_empty (Enq_wait d) = 0" "holds_empty (Enq_crit d) = 1"
  "holds_empty Enq_post = 0" "holds_empty Deq_wait = 0" "holds_empty Deq_crit = 0"
  "holds_empty (Deq_post d) = 1"
  "holds_full Idle = 0" "holds_full (Enq_wait d) = 0" "holds_full (Enq_crit d) = 0"
  "holds_full Enq_post = 1" "holds_full Deq_wait = 0" "holds_full Deq_crit = 1"
  "holds_full (Deq_post d) = 0"
  by (simp_all add: holds_empty_def holds_full_def)

lemma init_system_inv:
  assumes "0 < C" "C < 4294967296" "length mem = nat C"
  shows "queue_inv C (init_system mem C k)"
proof -
  have "sum_list (map holds_empty (replicate k Idle)) = 0"
       "sum_list (map holds_full (replicate k Idle)) = 0"
    by (simp_all add: sum_list_replicate)
  moreover have "C mod 4294967296 = C" using assms by simp
  ultimately show ?thesis
    using assms
    by (simp add: queue_inv_def init_system_def init_queue_def contents_def slots_def)
qed

lemma enq_crit_room:
  assumes "queue_inv C s" "i < length (threads s)" "threads s ! i = Enq_crit d"
  shows "count (queue s) < C"
proof -
  have "holds_empty (threads s ! i) \<le> sum_list (map holds_empty (threads s))"
    using assms(2) by (intro sum_list_map_member holds_nonneg)
  then have "1 \<le> sum_list (map holds_empty (threads s))" using assms(3) by simp
  moreover have "int (sem_empty (queue s)) + sum_list (map holds_empty (threads s))
      + count (queue s) = C"
    using assms(1) by (simp add: queue_inv_def Let_def)
  ultimately show ?thesis by linarith
qed

lemma deq_crit_some:
  assumes "queue_inv C s" "i < length (threads s)" "threads s ! i = Deq_crit"
  shows "0 < count (queue s)"
proof -
  have "holds_full (threads s ! i) \<le> sum_list (map holds_full (threads s))"
    using assms(2) by (intro sum_list_map_member holds_nonneg)
  then have "1 \<le> sum_list (map holds_full (threads s))" using assms(3) by simp
  moreover have "int (sem_full (queue s)) + sum_list (map holds_full (threads s))
      = count (queue s)"
    using assms(1) by (simp add: queue_inv_def Let_def)
  ultimately show ?thesis by linarith
qed

lemma thread_step_inv:
  assumes C: "0 < C" and i: "i < length (threads s)" and inv: "queue_inv C s"
  shows "queue_inv C (thread_step i s)"
proof (cases "threads s ! i")
  case Idle
  then show ?thesis using inv by (simp add: thread_step_def)
next
  case (Enq_wait d)
  then show ?thesis
    using inv i
    by (auto simp: thread_step_def queue_inv_def Let_def sem_wait_def sum_list_map_update
        contents_def slots_def)
next
  case (Enq_crit d)
  let ?q = "queue s"
  have room: "count ?q < C" using inv i Enq_crit by (rule enq_crit_room)
  have f: "max_tasks ?q = C" "length (tasks ?q) = nat C" "0 \<le> head ?q" "head ?q < C"
      "0 \<le> count ?q" "tail ?q = (head ?q + count ?q) mod C"
      "enqueued s = dequeued s @ contents ?q"
    using inv by (simp_all add: queue_inv_def Let_def)
  have cont: "contents (enqueue_locked ?q d) = contents ?q @ [d]"
    using C f room by (intro contents_enqueue) simp_all
  have "0 \<le> tail ?q" using f(6) C by simp
  then have "c_rem (tail ?q + 1) C = (tail ?q + 1) mod C"
    using C by (intro c_rem_mod) simp_all
  also have "\<dots> = (head ?q + (count ?q + 1)) mod C"
    unfolding f(6) by (simp add: mod_add_left_eq add.assoc)
  finally have tl: "tail (enqueue_locked ?q d) = (head ?q + (count ?q + 1)) mod C"
    by (simp add: enqueue_locked_def f(1))
  have rest: "max_tasks (enqueue_locked ?q d) = C" "head (enqueue_locked ?q d) = head ?q"
      "count (enqueue_locked ?q d) = count ?q + 1"
      "length (tasks (enqueue_locked ?q d)) = nat C"
      "sem_empty (enqueue_locked ?q d) = sem_empty ?q"
      "sem_full (enqueue_locked ?q d) = sem_full ?q"
    by (simp_all add: enqueue_locked_def f)
  show ?thesis
    using inv i Enq_crit room
    by (simp add: thread_step_def queue_inv_def Let_def sum_list_map_update cont tl rest)
next
  case Enq_post
  then show ?thesis
    using inv i
    by (auto simp: thread_step_def queue_inv_def Let_def sem_post_def sum_list_map_update
        contents_def slots_def)
next
  case Deq_wait
  then show ?thesis
    using inv i
    by (auto simp: thread_step_def queue_inv_def Let_def sem_wait_def sum_list_map_update
        contents_def slots_def)
next
  case Deq_crit
  let ?q = "queue s"
  obtain d q' where dq: "dequeue_locked ?q = (d, q')" by (cases "dequeue_locked ?q")
  have some: "0 < count ?q" using inv i Deq_crit by (rule deq_crit_some)
  have f: "max_tasks ?q = C" "length (tasks ?q) = nat C" "0 \<le> head ?q" "head ?q < C"
      "count ?q \<le> C" "tail ?q = (head ?q + count ?q) mod C"
      "enqueued s = dequeued s @ contents ?q"
    using inv by (simp_all add: queue_inv_def Let_def)
  have "contents ?q = fst (dequeue_locked ?q) # contents (snd (dequeue_locked ?q))"
    using C f some by (intro contents_dequeue) simp_all
  then have cont: "contents ?q = d # contents q'" by (simp add: dq)
  have hd': "c_rem (head ?q + 1) C = (head ?q + 1) mod C"
    using C f by (intro c_rem_mod) simp_all
  have q': "q' = ?q \<lparr> head := (head ?q + 1) mod C, count := count ?q - 1 \<rparr>"
    using dq by (simp add: dequeue_locked_def f(1) hd')
  have "((head ?q + 1) mod C + (count ?q - 1)) mod C = (head ?q + 1 + (count ?q - 1)) mod C"
    by (rule mod_add_left_eq)
  then have tl: "tail ?q = ((head ?q + 1) mod C + (count ?q - 1)) mod C"
    using f(6) by simp
  have hb: "0 \<le> (head ?q + 1) mod C" "(head ?q + 1) mod C < C" using C by simp_all
  show ?thesis
    using inv i Deq_crit some hb
    by (simp add: thread_step_def queue_inv_def Let_def dq sum_list_map_update cont)
      (simp add: q' tl [symmetric])
next
  case (Deq_post d)
  then show ?thesis
    using inv i
    by (auto simp: thread_step_def queue_inv_def Let_def sem_post_def sum_list_map_update
        contents_def slots_def)
qed

lemma step_inv:
  assumes "0 < C" and "queue_inv C s"
  shows "queue_inv C (step e s)"
proof (cases e)
  case (Call_enqueue i d)
  then show ?thesis
    using assms(2) by (auto simp: step_def queue_inv_def Let_def sum_list_map_update)
next
  case (Call_dequeue i)
  then show ?thesis
    using assms(2) by (auto simp: step_def queue_inv_def Let_def sum_list_map_update)
next
  case (Step i)
  then show ?thesis
    using assms by (simp add: step_def thread_step_inv)
qed

lemma run_inv:
  assumes "0 < C"
  shows "queue_inv C s \<Longrightarrow> queue_inv C (run es s)"
  unfolding run_def
proof (induction es arbitrary: s)
  case Nil
  then show ?case by simp
next
  case (Cons e es)
  then show ?case using step_inv [OF assms] by simp
qed

lemma run_Nil [simp]: "run [] s = s"
  by (simp add: run_def)

lemma run_Cons [simp]: "run (e # es) s = run es (step e s)"
  by (simp add: run_def)

lemma reachable_inv:
  assumes "0 < C" "C \<le> 2147483647" "length mem = nat C"
  shows "queue_inv C (run es (init_system mem C k))"
  using assms by (intro run_inv init_system_inv) simp_all

lemma head_in_slots:
  assumes "0 < max_tasks q" "0 < count q" "0 \<le> head q" "head q < max_tasks q"
  shows "nat (head q) \<in> set (slots q)"
proof -
  have "0 < nat (count q)" using assms(2) by simp
  then have "0 \<in> set [0..<nat (count q)]" by simp
  then have "nat ((head q + int 0) mod max_tasks q) \<in> set (slots q)"
    unfolding slots_def set_map by (rule imageI)
  then show ?thesis using assms by simp
qed

lemma enqueue_as_steps:
  assumes "i < length (threads s)" "threads s ! i = Idle"
  shows "enqueue (queue s) d = None \<Longrightarrow>
           run [Call_enqueue i d, Step i] s = s \<lparr> threads := (threads s)[i := Enq_wait d] \<rparr>"
    and "enqueue (queue s) d = Some q' \<Longrightarrow>
           run [Call_enqueue i d, Step i, Step i, Step i] s
             = s \<lparr> queue := q', enqueued := enqueued s @ [d] \<rparr>"
  using assms
  by (auto simp: enqueue_def step_def thread_step_def Let_def list_update_same_conv
      split: option.splits)

lemma dequeue_as_steps:
  assumes "i < length (threads s)" "threads s ! i = Idle"
  shows "dequeue (queue s) = None \<Longrightarrow>
           run [Call_dequeue i, Step i] s = s \<lparr> threads := (threads s)[i := Deq_wait] \<rparr>"
    and "dequeue (queue s) = Some (d, q') \<Longrightarrow>
           run [Call_dequeue i, Step i, Step i, Step i] s
             = s \<lparr> queue := q', dequeued := dequeued s @ [d] \<rparr>"
  using assms
  by (auto simp: dequeue_def step_def thread_step_def Let_def list_update_same_conv
      split: option.splits prod.splits)

lemma replicate_2: "replicate 2 x = [x, x]"
  by (simp add: numeral_2_eq_2)

lemmas demo_simps = replicate_2
  demo_schedule_def demo_memory_def one_cell_def writer_admitted_def reader_admitted_def
  writer_at_full_def reader_at_empty_def init_system_def init_queue_def step_def thread_step_def
  sem_wait_def sem_post_def enqueue_locked_def dequeue_locked_def c_rem_def Let_def
  contents_def slots_def occupied_def enqueue_def dequeue_def

lemma demo_run:
  "run demo_schedule (init_system demo_memory 2 2) =
     \<lparr> queue = \<lparr> tasks = [ThreadData 5, ThreadData 7], max_tasks = 2, head = 1, tail = 0,
                  count = 1, sem_empty = 1, sem_full = 1 \<rparr>,
       threads = [Idle, Idle],
       enqueued = [ThreadData 5, ThreadData 7], dequeued = [ThreadData 5] \<rparr>"
  by (simp add: demo_simps)

lemma writer_admitted_run:
  "run writer_admitted (init_system one_cell 1 2) =
     \<lparr> queue = \<lparr> tasks = [ThreadData 0], max_tasks = 1, head = 0, tail = 0,
                  count = 0, sem_empty = 0, sem_full = 0 \<rparr>,
       threads = [Enq_crit (ThreadData 5), Idle], enqueued = [], dequeued = [] \<rparr>"
  by (simp add: demo_simps)

lemma reader_admitted_run:
  "run reader_admitted (init_system one_cell 1 2) =
     \<lparr> queue = \<lparr> tasks = [ThreadData 5], max_tasks = 1, head = 0, tail = 0,
                  count = 1, sem_empty = 0, sem_full = 0 \<rparr>,
       threads = [Idle, Deq_crit], enqueued = [ThreadData 5], dequeued = [] \<rparr>"
  by (simp add: demo_simps)

lemma writer_at_full_run:
  "run writer_at_full (init_system one_cell 1 2) =
     \<lparr> queue = \<lparr> tasks = [ThreadData 5], max_tasks = 1, head = 0, tail = 0,
                  count = 1, sem_empty = 0, sem_full = 1 \<rparr>,
       threads = [Enq_wait (ThreadData 7), Idle], enqueued = [ThreadData 5], dequeued = [] \<rparr>"
  by (simp add: demo_simps)

lemma reader_at_empty_run:
  "run reader_at_empty (init_system one_cell 1 2) =
     \<lparr> queue = \<lparr> tasks = [ThreadData 0], max_tasks = 1, head = 0, tail = 0,
                  count = 0, sem_empty = 1, sem_full = 0 \<rparr>,
       threads = [Idle, Deq_wait], enqueued = [], dequeued = [] \<rparr>"
  by (simp add: demo_simps)

subsection \<open>First in, first out\<close>

text \<open>
  Claim C3. Whatever the schedule of calls to \<open>enqueue\<close> and \<open>dequeue\<close> and of thread
  steps (a call that finds no free slot, or no occupied one, waits), the values read by
  \<open>dequeue\<close> are, in order, the first of the values written by \<open>enqueue\<close>: each value
  read was written before, the \<open>k\<close>-th value written is the \<open>k\<close>-th value read and no
  other, and the values written and not yet read are the contents of the buffer.
\<close>

theorem queue_fifo:
  assumes "0 < C" "C \<le> 2147483647" "length mem = nat C"
  shows "enqueued (run es (init_system mem C k))
           = dequeued (run es (init_system mem C k))
             @ contents (queue (run es (init_system mem C k)))
    \<and> dequeued (run es (init_system mem C k))
           = take (length (dequeued (run es (init_system mem C k))))
               (enqueued (run es (init_system mem C k)))
    \<and> set (dequeued (run es (init_system mem C k)))
           \<subseteq> set (enqueued (run es (init_system mem C k)))"
proof -
  let ?s = "run es (init_system mem C k)"
  have "queue_inv C ?s" using assms by (rule reachable_inv)
  then have "enqueued ?s = dequeued ?s @ contents (queue ?s)"
    by (simp add: queue_inv_def Let_def)
  then show ?thesis by simp
qed

theorem queue_fifo_witness:
  "(0 :: int) < 2 \<and> (2 :: int) \<le> 2147483647 \<and> length demo_memory = nat 2
   \<and> enqueued (run demo_schedule (init_system demo_memory 2 2)) = [ThreadData 5, ThreadData 7]
   \<and> dequeued (run demo_schedule (init_system demo_memory 2 2)) = [ThreadData 5]
   \<and> contents (queue (run demo_schedule (init_system demo_memory 2 2))) = [ThreadData 7]
   \<and> enqueued (run demo_schedule (init_system demo_memory 2 2))
       = dequeued (run demo_schedule (init_system demo_memory 2 2))
         @ contents (queue (run demo_schedule (init_system demo_memory 2 2)))"
proof -
  have h: "(0 :: int) < 2" "(2 :: int) \<le> 2147483647" "length demo_memory = nat 2"
    by (simp_all add: demo_memory_def)
  show ?thesis
    using h queue_fifo [OF h, of demo_schedule 2]
    by (simp add: demo_run contents_def slots_def)
qed

subsection \<open>The invariant\<close>

text \<open>
  Claim C7. In every state reachable from \<open>init_queue\<close> the capacity is the one fixed at
  construction, \<open>0 \<le> count \<le> C\<close>, \<open>head\<close> and \<open>tail\<close> lie between 0 and \<open>C - 1\<close>, the
  critical section of \<open>enqueue\<close> moves \<open>tail\<close> to \<open>(tail + 1) mod C\<close> and that of
  \<open>dequeue\<close> moves \<open>head\<close> to \<open>(head + 1) mod C\<close>, and the number of values written and
  not yet read is \<open>count\<close>, hence at most \<open>C\<close>.
\<close>

theorem queue_invariant:
  assumes "0 < C" "C \<le> 2147483647" "length mem = nat C"
  shows "max_tasks (queue (run es (init_system mem C k))) = C
    \<and> 0 \<le> count (queue (run es (init_system mem C k)))
    \<and> count (queue (run es (init_system mem C k))) \<le> C
    \<and> 0 \<le> head (queue (run es (init_system mem C k)))
    \<and> head (queue (run es (init_system mem C k))) < C
    \<and> 0 \<le> tail (queue (run es (init_system mem C k)))
    \<and> tail (queue (run es (init_system mem C k))) < C
    \<and> tail (enqueue_locked (queue (run es (init_system mem C k))) d)
        = (tail (queue (run es (init_system mem C k))) + 1) mod C
    \<and> head (snd (dequeue_locked (queue (run es (init_system mem C k)))))
        = (head (queue (run es (init_system mem C k))) + 1) mod C
    \<and> int (length (enqueued (run es (init_system mem C k))))
        - int (length (dequeued (run es (init_system mem C k))))
        = count (queue (run es (init_system mem C k)))"
proof -
  let ?s = "run es (init_system mem C k)"
  let ?q = "queue ?s"
  have inv: "queue_inv C ?s" using assms by (rule reachable_inv)
  then have f: "max_tasks ?q = C" "0 \<le> head ?q" "head ?q < C" "0 \<le> count ?q" "count ?q \<le> C"
      "tail ?q = (head ?q + count ?q) mod C" "enqueued ?s = dequeued ?s @ contents ?q"
    by (simp_all add: queue_inv_def Let_def)
  have t: "0 \<le> tail ?q" "tail ?q < C" using f(6) assms(1) by simp_all
  have "c_rem (tail ?q + 1) C = (tail ?q + 1) mod C"
    using t assms(1) by (intro c_rem_mod) simp_all
  then have a: "tail (enqueue_locked ?q d) = (tail ?q + 1) mod C"
    by (simp add: enqueue_locked_def f(1))
  have "c_rem (head ?q + 1) C = (head ?q + 1) mod C"
    using f assms(1) by (intro c_rem_mod) simp_all
  then have b: "head (snd (dequeue_locked ?q)) = (head ?q + 1) mod C"
    by (simp add: dequeue_locked_def f(1))
  have "length (enqueued ?s) = length (dequeued ?s) + nat (count ?q)"
    by (simp add: f(7) contents_def)
  then have c: "int (length (enqueued ?s)) - int (length (dequeued ?s)) = count ?q"
    using f(4) by simp
  show ?thesis using f t a b c by simp
qed

theorem queue_invariant_witness:
  "(0 :: int) < 2 \<and> (2 :: int) \<le> 2147483647 \<and> length demo_memory = nat 2
   \<and> max_tasks (queue (run demo_schedule (init_system demo_memory 2 2))) = 2
   \<and> count (queue (run demo_schedule (init_system demo_memory 2 2))) = 1
   \<and> head (queue (run demo_schedule (init_system demo_memory 2 2))) = 1
   \<and> tail (queue (run demo_schedule (init_system demo_memory 2 2))) = 0
   \<and> tail (enqueue_locked (queue (run demo_schedule (init_system demo_memory 2 2)))
          (ThreadData 9)) = 1
   \<and> head (snd (dequeue_locked (queue (run demo_schedule (init_system demo_memory 2 2)))))
        = 0"
proof -
  have h: "(0 :: int) < 2" "(2 :: int) \<le> 2147483647" "length demo_memory = nat 2"
    by (simp_all add: demo_memory_def)
  show ?thesis
    using h queue_invariant [OF h, of demo_schedule 2 "ThreadData 9"]
    by (simp add: demo_run)
qed

subsection \<open>Back-pressure\<close>

text \<open>
  Claim C8. In every reachable state: a thread about to write (line 58) finds fewer
  than \<open>C\<close> values in the buffer and the slot at \<open>tail\<close> inside the buffer and not
  occupied; a thread about to read (line 68) finds at least one value and the slot at
  \<open>head\<close> occupied; while the buffer holds \<open>C\<close> values a call to \<open>enqueue\<close> does not get
  past its \<open>sem_wait\<close>, and while it holds none a call to \<open>dequeue\<close> does not.
\<close>

theorem queue_back_pressure:
  assumes "0 < C" "C \<le> 2147483647" "length mem = nat C"
    and "i < length (threads (run es (init_system mem C k)))"
  shows "(threads (run es (init_system mem C k)) ! i = Enq_crit d \<longrightarrow>
            count (queue (run es (init_system mem C k))) < C
          \<and> nat (tail (queue (run es (init_system mem C k))))
              < length (tasks (queue (run es (init_system mem C k))))
          \<and> \<not> occupied (queue (run es (init_system mem C k)))
                (nat (tail (queue (run es (init_system mem C k))))))
    \<and> (threads (run es (init_system mem C k)) ! i = Deq_crit \<longrightarrow>
            0 < count (queue (run es (init_system mem C k)))
          \<and> nat (head (queue (run es (init_system mem C k))))
              < length (tasks (queue (run es (init_system mem C k))))
          \<and> occupied (queue (run es (init_system mem C k)))
                (nat (head (queue (run es (init_system mem C k))))))
    \<and> (count (queue (run es (init_system mem C k))) = C \<longrightarrow>
            enqueue (queue (run es (init_system mem C k))) d = None
          \<and> (threads (run es (init_system mem C k)) ! i = Enq_wait d \<longrightarrow>
               step (Step i) (run es (init_system mem C k)) = run es (init_system mem C k)))
    \<and> (count (queue (run es (init_system mem C k))) = 0 \<longrightarrow>
            dequeue (queue (run es (init_system mem C k))) = None
          \<and> (threads (run es (init_system mem C k)) ! i = Deq_wait \<longrightarrow>
               step (Step i) (run es (init_system mem C k)) = run es (init_system mem C k)))"
proof -
  let ?s = "run es (init_system mem C k)"
  let ?q = "queue ?s"
  have inv: "queue_inv C ?s" using assms(1-3) by (rule reachable_inv)
  then have f: "max_tasks ?q = C" "length (tasks ?q) = nat C" "0 \<le> head ?q" "head ?q < C"
      "0 \<le> count ?q" "count ?q \<le> C" "tail ?q = (head ?q + count ?q) mod C"
      "int (sem_empty ?q) + sum_list (map holds_empty (threads ?s)) + count ?q = C"
      "int (sem_full ?q) + sum_list (map holds_full (threads ?s)) = count ?q"
    by (simp_all add: queue_inv_def Let_def)
  have t: "0 \<le> tail ?q" "tail ?q < C" using f(7) assms(1) by simp_all
  have he: "0 \<le> sum_list (map holds_empty (threads ?s))"
    by (intro sum_list_nonneg) (auto simp: holds_nonneg)
  have hf: "0 \<le> sum_list (map holds_full (threads ?s))"
    by (intro sum_list_nonneg) (auto simp: holds_nonneg)
  have A: "count ?q < C \<and> nat (tail ?q) < length (tasks ?q) \<and> \<not> occupied ?q (nat (tail ?q))"
    if "threads ?s ! i = Enq_crit d"
  proof -
    have room: "count ?q < C" using inv assms(4) that by (rule enq_crit_room)
    have "nat ((head ?q + count ?q) mod max_tasks ?q) \<notin> set (slots ?q)"
      using assms(1) f room by (intro tail_not_in_slots) simp_all
    then have "\<not> occupied ?q (nat (tail ?q))"
      by (simp add: occupied_def f(1) f(7) [symmetric])
    then show ?thesis using room t f(2) by (simp add: nat_less_iff)
  qed
  have B: "0 < count ?q \<and> nat (head ?q) < length (tasks ?q) \<and> occupied ?q (nat (head ?q))"
    if "threads ?s ! i = Deq_crit"
  proof -
    have some: "0 < count ?q" using inv assms(4) that by (rule deq_crit_some)
    have "nat (head ?q) \<in> set (slots ?q)"
      using assms(1) f some by (intro head_in_slots) simp_all
    then show ?thesis using some f by (simp add: occupied_def nat_less_iff)
  qed
  have Cc: "enqueue ?q d = None
      \<and> (threads ?s ! i = Enq_wait d \<longrightarrow> step (Step i) ?s = ?s)"
    if "count ?q = C"
  proof -
    have "sem_empty ?q = 0" using f(8) he that by linarith
    then show ?thesis
      using assms(4) by (simp add: enqueue_def sem_wait_def step_def thread_step_def)
  qed
  have D: "dequeue ?q = None
      \<and> (threads ?s ! i = Deq_wait \<longrightarrow> step (Step i) ?s = ?s)"
    if "count ?q = 0"
  proof -
    have "sem_full ?q = 0" using f(9) hf that by linarith
    then show ?thesis
      using assms(4) by (simp add: dequeue_def sem_wait_def step_def thread_step_def)
  qed
  show ?thesis using A B Cc D by blast
qed

theorem queue_back_pressure_witness:
  "(0 :: int) < 1 \<and> (1 :: int) \<le> 2147483647 \<and> length one_cell = nat 1
   \<and> threads (run writer_admitted (init_system one_cell 1 2)) ! 0 = Enq_crit (ThreadData 5)
   \<and> count (queue (run writer_admitted (init_system one_cell 1 2))) < 1
   \<and> \<not> occupied (queue (run writer_admitted (init_system one_cell 1 2)))
         (nat (tail (queue (run writer_admitted (init_system one_cell 1 2)))))
   \<and> threads (run reader_admitted (init_system one_cell 1 2)) ! 1 = Deq_crit
   \<and> 0 < count (queue (run reader_admitted (init_system one_cell 1 2)))
   \<and> occupied (queue (run reader_admitted (init_system one_cell 1 2)))
         (nat (head (queue (run reader_admitted (init_system one_cell 1 2)))))
   \<and> count (queue (run writer_at_full (init_system one_cell 1 2))) = 1
   \<and> threads (run writer_at_full (init_system one_cell 1 2)) ! 0 = Enq_wait (ThreadData 7)
   \<and> enqueue (queue (run writer_at_full (init_system one_cell 1 2))) (ThreadData 7) = None
   \<and> step (Step 0) (run writer_at_full (init_system one_cell 1 2))
        = run writer_at_full (init_system one_cell 1 2)
   \<and> count (queue (run reader_at_empty (init_system one_cell 1 2))) = 0
   \<and> threads (run reader_at_empty (init_system one_cell 1 2)) ! 1 = Deq_wait
   \<and> dequeue (queue (run reader_at_empty (init_system one_cell 1 2))) = None
   \<and> step (Step 1) (run reader_at_empty (init_system one_cell 1 2))
        = run reader_at_empty (init_system one_cell 1 2)"
proof -
  have h: "(0 :: int) < 1" "(1 :: int) \<le> 2147483647" "length one_cell = nat 1"
    by (simp_all add: one_cell_def)
  have a: "0 < length (threads (run writer_admitted (init_system one_cell 1 2)))"
    and b: "1 < length (threads (run reader_admitted (init_system one_cell 1 2)))"
    and c: "0 < length (threads (run writer_at_full (init_system one_cell 1 2)))"
    and d: "1 < length (threads (run reader_at_empty (init_system one_cell 1 2)))"
    by (simp_all add: writer_admitted_run reader_admitted_run writer_at_full_run
        reader_at_empty_run)
  show ?thesis
    using h queue_back_pressure [OF h a, of "ThreadData 5"]
      queue_back_pressure [OF h b, of "ThreadData 5"]
      queue_back_pressure [OF h c, of "ThreadData 7"]
      queue_back_pressure [OF h d, of "ThreadData 5"]
    by (simp add: writer_admitted_run reader_admitted_run writer_at_full_run
        reader_at_empty_run)
qed

section \<open>Properties of the entry point\<close>

text \<open>
  Claim C9, as stated: the starting exponent defaults to 1 both when the argument is
  absent and when it cannot be parsed. With the argument \<open>abc\<close>, which has no digit to
  convert, line 152 takes what \<open>strtoul\<close> returns: the search starts at 0.
\<close>

theorem start_default_counterexample:
  "main_start [''prime11'', ''abc''] = 0 \<and> leading_digits ''abc'' = []"
  by (simp add: main_start_def strtoul_def leading_digits_def sign_and_rest_def isspace_def
      isdigit_def Let_def)

text \<open>
  Claim C9, amended: the starting exponent is 1 when no argument is given; with an
  argument it is the value \<open>strtoul\<close> returns for it, which is 0 when the argument has
  no decimal digit after its leading white space and sign.
\<close>

theorem start_exponent:
  "(length argv < 2 \<longrightarrow> main_start argv = 1)
   \<and> (2 \<le> length argv \<longrightarrow> main_start argv = strtoul (argv ! 1))
   \<and> (2 \<le> length argv \<longrightarrow> leading_digits (argv ! 1) = [] \<longrightarrow> main_start argv = 0)"
  by (simp add: main_start_def strtoul_def Let_def)

theorem start_exponent_witness:
  "length [''prime11''] < 2 \<and> main_start [''prime11''] = 1
   \<and> 2 \<le> length [''prime11'', ''127''] \<and> main_start [''prime11'', ''127''] = 127
   \<and> 2 \<le> length [''prime11'', ''x7''] \<and> leading_digits ([''prime11'', ''x7''] ! 1) = []
   \<and> main_start [''prime11'', ''x7''] = 0"
  using start_exponent [of "[''prime11'']"] start_exponent [of "[''prime11'', ''127'']"]
    start_exponent [of "[''prime11'', ''x7'']"]
  by (simp add: strtoul_def leading_digits_def sign_and_rest_def isspace_def
      isdigit_def Let_def decimal_value_def digit_value_def)

end
